theory Spec2Isabelle
  imports Main "HOL-Library.Multiset" "HOL-Library.Sublist"
begin

chapter \<open>Models\<close>

section \<open>Go integers\<close>

text \<open>
  Go's \<open>int\<close> is a 64-bit two's complement integer on the platforms the lessons target.
  Values are kept as mathematical integers and every arithmetic result of the source is
  passed through \<open>wrap64\<close>, which is what the machine keeps of it. \<open>maxInt\<close> is
  \<open>math.MaxInt64\<close>.
\<close>

definition wrap64 :: "int \<Rightarrow> int" where
  "wrap64 x = (x + 2 ^ 63) mod 2 ^ 64 - 2 ^ 63"

definition maxInt :: int where
  "maxInt = 2 ^ 63 - 1"

section \<open>Lesson 10: the JSON REST API over an in-memory map\<close>

text \<open>
  A Go string that came out of \<open>json.Unmarshal\<close> is valid UTF-8, so it is modelled as
  the list of its Unicode code points. \<open>time.Time\<close> is an abstract instant.
\<close>

type_synonym gostring = "nat list"
type_synonym instant = int

record User =
  ID :: int
  Name :: gostring
  Email :: gostring
  Age :: int
  CreatedAt :: instant
  UpdatedAt :: instant

record CreateUserRequest =
  reqName :: gostring
  reqEmail :: gostring
  reqAge :: int

text \<open>The pointer fields of \<open>UpdateUserRequest\<close>: \<open>nil\<close> is \<open>None\<close>.\<close>

record UpdateUserRequest =
  updName :: "gostring option"
  updEmail :: "gostring option"
  updAge :: "int option"

record ValidationError =
  Field :: string
  Message :: string

text \<open>
  What a handler writes: \<open>ErrorResponse\<close> (error text and details) or \<open>APIResponse\<close>
  (success flag, message, data).
\<close>

datatype payload =
  ErrorResponse string "ValidationError list"
| APIResponse bool string "User option"

record response =
  statusCode :: int
  written :: payload

text \<open>The package-level variables \<open>users\<close> and \<open>nextUserID\<close>.\<close>

record server =
  users :: "int \<rightharpoonup> User"
  nextUserID :: int

text \<open>
  What \<open>io.ReadAll\<close> followed by \<open>json.Unmarshal\<close> makes of a request body: the read
  fails, the bytes are not JSON of the expected shape, or a request value is decoded.
\<close>

datatype 'a body = ReadFailed | InvalidJSON | Decoded 'a

text \<open>
  \<open>unicode.IsSpace\<close>: the Latin-1 spaces \<open>\t \n \v \f \r\<close>, space, U+0085 and U+00A0,
  and beyond Latin-1 the code points with the White Space property.
\<close>

definition isSpace :: "nat \<Rightarrow> bool" where
  "isSpace c \<longleftrightarrow>
     c \<in> {9, 10, 11, 12, 13, 32, 133, 160, 5760, 8232, 8233, 8239, 8287, 12288}
     \<or> (8192 \<le> c \<and> c \<le> 8202)"

definition TrimSpace :: "gostring \<Rightarrow> gostring" where
  "TrimSpace s = rev (dropWhile isSpace (rev (dropWhile isSpace s)))"

text \<open>\<open>strings.Contains(s, "@")\<close>: the code point 64 occurs in \<open>s\<close>.\<close>

definition ContainsAt :: "gostring \<Rightarrow> bool" where
  "ContainsAt s \<longleftrightarrow> 64 \<in> set s"

definition validateCreateUserRequest :: "CreateUserRequest \<Rightarrow> ValidationError list" where
  "validateCreateUserRequest req =
     (let errors0 = [];
          errors1 =
            (if TrimSpace (reqName req) = []
             then errors0 @ [\<lparr>Field = ''name'', Message = ''Name is required''\<rparr>]
             else errors0);
          errors2 =
            (if TrimSpace (reqEmail req) = []
             then errors1 @ [\<lparr>Field = ''email'', Message = ''Email is required''\<rparr>]
             else if \<not> ContainsAt (reqEmail req)
             then errors1 @ [\<lparr>Field = ''email'', Message = ''Invalid email format''\<rparr>]
             else errors1);
          errors3 =
            (if reqAge req < 0 \<or> reqAge req > 150
             then errors2 @ [\<lparr>Field = ''age'', Message = ''Age must be between 0 and 150''\<rparr>]
             else errors2)
      in errors3)"

definition respondWithJSON :: "int \<Rightarrow> payload \<Rightarrow> response" where
  "respondWithJSON code p = \<lparr>statusCode = code, written = p\<rparr>"

definition respondWithError :: "int \<Rightarrow> string \<Rightarrow> response" where
  "respondWithError code message = respondWithJSON code (ErrorResponse message [])"

definition respondWithValidationErrors :: "ValidationError list \<Rightarrow> response" where
  "respondWithValidationErrors errors =
     respondWithJSON 400 (ErrorResponse ''Validation failed'' errors)"

text \<open>
  \<open>createUser\<close>: the handler of \<open>POST /api/users\<close>. \<open>now\<close> is what \<open>time.Now()\<close>
  returns during the call.
\<close>

definition createUser :: "instant \<Rightarrow> CreateUserRequest body \<Rightarrow> server \<Rightarrow> response \<times> server" where
  "createUser now b s =
     (case b of
        ReadFailed \<Rightarrow> (respondWithError 400 ''Failed to read request body'', s)
      | InvalidJSON \<Rightarrow> (respondWithError 400 ''Invalid JSON format'', s)
      | Decoded req \<Rightarrow>
          (let errors = validateCreateUserRequest req in
           if length errors > 0 then (respondWithValidationErrors errors, s)
           else
             (let user = \<lparr>ID = nextUserID s, Name = reqName req, Email = reqEmail req,
                          Age = reqAge req, CreatedAt = now, UpdatedAt = now\<rparr>
              in (respondWithJSON 201 (APIResponse True ''User created successfully'' (Some user)),
                  s\<lparr>users := (users s)(nextUserID s \<mapsto> user),
                    nextUserID := wrap64 (nextUserID s + 1)\<rparr>))))"

text \<open>\<open>updateUser\<close>: the handler of \<open>PUT /api/users/{id}\<close>.\<close>

definition updateUser ::
  "instant \<Rightarrow> UpdateUserRequest body \<Rightarrow> int \<Rightarrow> server \<Rightarrow> response \<times> server" where
  "updateUser now b userID s =
     (case users s userID of
        None \<Rightarrow> (respondWithError 404 ''User not found'', s)
      | Some user \<Rightarrow>
          (case b of
             ReadFailed \<Rightarrow> (respondWithError 400 ''Failed to read request body'', s)
           | InvalidJSON \<Rightarrow> (respondWithError 400 ''Invalid JSON format'', s)
           | Decoded req \<Rightarrow>
               (let user1 = (case updName req of None \<Rightarrow> user | Some n \<Rightarrow> user\<lparr>Name := n\<rparr>);
                    user2 = (case updEmail req of None \<Rightarrow> user1 | Some e \<Rightarrow> user1\<lparr>Email := e\<rparr>);
                    user3 = (case updAge req of None \<Rightarrow> user2 | Some a \<Rightarrow> user2\<lparr>Age := a\<rparr>);
                    user4 = user3\<lparr>UpdatedAt := now\<rparr>
                in (respondWithJSON 200 (APIResponse True ''User updated successfully'' (Some user4)),
                    s\<lparr>users := (users s)(userID \<mapsto> user4)\<rparr>))))"

section \<open>Lesson 08: the worker pool\<close>

text \<open>
  \<open>demonstrateWorkerPool\<close> starts \<open>numWorkers\<close> goroutines running \<open>worker\<close>, sends the
  jobs \<open>1..numJobs\<close> on the buffered channel \<open>jobs\<close>, closes it, and then receives
  \<open>numJobs\<close> values from the buffered channel \<open>results\<close>, printing each. The source fixes
  \<open>numWorkers = 3\<close> and \<open>numJobs = 9\<close>; here both are parameters. Both channels are made
  with capacity 100.

  The goroutines run interleaved. The model is a transition system: a state holds the
  contents of the two channels, whether \<open>jobs\<close> has been closed, where each worker stands
  and where the main goroutine stands; a step is one channel operation of one goroutine,
  and a goroutine whose operation would block has no step. The calls of \<open>time.Sleep\<close>
  only delay a goroutine, which the interleaving already allows for.
\<close>

text \<open>
  A worker is at the head of \<open>for job := range jobs\<close> (\<open>Ranging\<close>), or has received a job
  and not yet sent its result (\<open>Holding job\<close>), or has left the loop and returned
  (\<open>Exited\<close>).
\<close>

datatype wstate = Ranging | Holding int | Exited

text \<open>
  The main goroutine is at the head of one of its three loops, with the loop variable:
  starting workers (\<open>w\<close>), sending jobs (\<open>j\<close>), collecting results (\<open>r\<close>); or it has
  returned; or it has panicked on a closed channel.
\<close>

datatype mstate = Spawning int | Sending int | Collecting int | Returned | Panicked

text \<open>
  What a step does, as seen from outside: \<open>go worker(w, ...)\<close>; the end of the first loop;
  \<open>jobs <- j\<close>; \<open>close(jobs)\<close>; a worker receiving a job and printing
  \<open>Worker id processing job job\<close>; a worker sending a result; a worker returning; main
  receiving and printing \<open>Result: result\<close>; main returning; a panic.
\<close>

datatype event =
  Started int
| AllStarted
| Submitted int
| JobsClosed
| Processing int int
| Produced int int
| WorkerDone int
| Result int
| Finished
| Panic

text \<open>
  A channel's buffer is a list, oldest value first. \<open>workers\<close> lists the goroutines
  started so far, each with the \<open>id\<close> it was given.
\<close>

record pool =
  jobs :: "int list"
  jobsClosed :: bool
  results :: "int list"
  workers :: "(int \<times> wstate) list"
  mainpc :: mstate

definition chanCap :: nat where
  "chanCap = 100"

text \<open>The value a worker sends for a job: \<open>job * 2\<close>.\<close>

definition transform :: "int \<Rightarrow> int" where
  "transform job = wrap64 (job * 2)"

definition pool_init :: pool where
  "pool_init = \<lparr>jobs = [], jobsClosed = False, results = [], workers = [], mainpc = Spawning 1\<rparr>"

text \<open>
  One step of the main goroutine. A send blocks while the buffer is full, a receive
  blocks while it is empty; sending on or closing a closed channel panics.
\<close>

definition demonstrateWorkerPool :: "int \<Rightarrow> int \<Rightarrow> pool \<Rightarrow> (event \<times> pool) option" where
  "demonstrateWorkerPool numWorkers numJobs s =
     (case mainpc s of
        Spawning w \<Rightarrow>
          if w \<le> numWorkers
          then Some (Started w,
                 s\<lparr>workers := workers s @ [(w, Ranging)], mainpc := Spawning (wrap64 (w + 1))\<rparr>)
          else Some (AllStarted, s\<lparr>mainpc := Sending 1\<rparr>)
      | Sending j \<Rightarrow>
          if j \<le> numJobs
          then (if jobsClosed s then Some (Panic, s\<lparr>mainpc := Panicked\<rparr>)
                else if length (jobs s) < chanCap
                then Some (Submitted j,
                       s\<lparr>jobs := jobs s @ [j], mainpc := Sending (wrap64 (j + 1))\<rparr>)
                else None)
          else (if jobsClosed s then Some (Panic, s\<lparr>mainpc := Panicked\<rparr>)
                else Some (JobsClosed, s\<lparr>jobsClosed := True, mainpc := Collecting 1\<rparr>))
      | Collecting r \<Rightarrow>
          if r \<le> numJobs
          then (case results s of
                  [] \<Rightarrow> None
                | result # rest \<Rightarrow>
                    Some (Result result,
                      s\<lparr>results := rest, mainpc := Collecting (wrap64 (r + 1))\<rparr>))
          else Some (Finished, s\<lparr>mainpc := Returned\<rparr>)
      | Returned \<Rightarrow> None
      | Panicked \<Rightarrow> None)"

text \<open>
  One step of the \<open>k\<close>-th worker goroutine. At the head of its \<open>range\<close> loop it receives
  the oldest job if there is one, leaves the loop if the channel is closed and empty, and
  blocks otherwise. It never sends on \<open>jobs\<close> and never closes a channel.
\<close>

definition worker :: "nat \<Rightarrow> pool \<Rightarrow> (event \<times> pool) option" where
  "worker k s =
     (if k < length (workers s)
      then (case workers s ! k of
              (wid, st) \<Rightarrow>
                (case st of
                   Ranging \<Rightarrow>
                     (case jobs s of
                        job # rest \<Rightarrow>
                          Some (Processing wid job,
                            s\<lparr>jobs := rest, workers := (workers s)[k := (wid, Holding job)]\<rparr>)
                      | [] \<Rightarrow>
                          if jobsClosed s
                          then Some (WorkerDone wid, s\<lparr>workers := (workers s)[k := (wid, Exited)]\<rparr>)
                          else None)
                 | Holding job \<Rightarrow>
                     if length (results s) < chanCap
                     then Some (Produced wid (transform job),
                            s\<lparr>results := results s @ [transform job],
                              workers := (workers s)[k := (wid, Ranging)]\<rparr>)
                     else None
                 | Exited \<Rightarrow> None))
      else None)"

text \<open>
  The scheduler picks a goroutine: \<open>0\<close> is main, \<open>Suc k\<close> the \<open>k\<close>-th worker.
  \<open>pool_exec numWorkers numJobs tr s\<close>: some interleaving leads from the initial state to
  \<open>s\<close>, and \<open>tr\<close> lists its events in order. \<open>schedule\<close> runs a given list of picks.
\<close>

definition pool_step :: "int \<Rightarrow> int \<Rightarrow> nat \<Rightarrow> pool \<Rightarrow> (event \<times> pool) option" where
  "pool_step numWorkers numJobs a s =
     (case a of 0 \<Rightarrow> demonstrateWorkerPool numWorkers numJobs s | Suc k \<Rightarrow> worker k s)"

inductive pool_exec :: "int \<Rightarrow> int \<Rightarrow> event list \<Rightarrow> pool \<Rightarrow> bool" for numWorkers numJobs where
  pool_start: "pool_exec numWorkers numJobs [] pool_init"
| pool_next: "pool_exec numWorkers numJobs tr s \<Longrightarrow> pool_step numWorkers numJobs a s = Some (e, s')
     \<Longrightarrow> pool_exec numWorkers numJobs (tr @ [e]) s'"

fun schedule :: "int \<Rightarrow> int \<Rightarrow> nat list \<Rightarrow> event list \<times> pool \<Rightarrow> (event list \<times> pool) option" where
  "schedule numWorkers numJobs [] c = Some c"
| "schedule numWorkers numJobs (a # as) (tr, s) =
     (case pool_step numWorkers numJobs a s of
        None \<Rightarrow> None
      | Some (e, s') \<Rightarrow> schedule numWorkers numJobs as (tr @ [e], s'))"

text \<open>
  What a trace shows: the values main printed, in order (\<open>collected\<close>); the jobs the
  workers received, in order (\<open>processed\<close>); the operations on the intake channel
  (\<open>intakeOp\<close>). In a \<open>pool_blocked\<close> state no goroutine has a step.
\<close>

fun resultOf :: "event \<Rightarrow> int list" where
  "resultOf (Result x) = [x]"
| "resultOf _ = []"

definition collected :: "event list \<Rightarrow> int list" where
  "collected tr = concat (map resultOf tr)"

fun jobOf :: "event \<Rightarrow> int list" where
  "jobOf (Processing wid job) = [job]"
| "jobOf _ = []"

definition processed :: "event list \<Rightarrow> int list" where
  "processed tr = concat (map jobOf tr)"

fun intakeOp :: "event \<Rightarrow> bool" where
  "intakeOp (Submitted j) = True"
| "intakeOp JobsClosed = True"
| "intakeOp _ = False"

definition pool_blocked :: "int \<Rightarrow> int \<Rightarrow> pool \<Rightarrow> bool" where
  "pool_blocked numWorkers numJobs s \<longleftrightarrow>
     demonstrateWorkerPool numWorkers numJobs s = None
     \<and> (\<forall>k < length (workers s). worker k s = None)"

text \<open>The values the workers sent on \<open>results\<close>, in order (\<open>produced\<close>).\<close>

fun sentOf :: "event \<Rightarrow> int list" where
  "sentOf (Produced wid r) = [r]"
| "sentOf _ = []"

definition produced :: "event list \<Rightarrow> int list" where
  "produced tr = concat (map sentOf tr)"

section \<open>Lesson 08: the pipeline\<close>

text \<open>
  \<open>generateNumbers(count)\<close> starts a goroutine that sends \<open>1..count\<close> on an unbuffered
  channel and closes it; \<open>squareNumbers\<close> starts one that receives each number, sends its
  square on a second unbuffered channel, and closes that when the first is closed;
  \<open>printNumbers\<close> prints what arrives on the second until it is closed. On an unbuffered
  channel a send and the matching receive happen together: the step is the sender's, and
  it needs the receiver to be waiting. The parameter \<open>count\<close> is written \<open>cnt\<close>.
\<close>

text \<open>
  The generator is at the head of its loop with \<open>i\<close>, or has closed its channel and
  returned. The squarer waits for a number, holds one whose square it has yet to send, or
  has closed its channel and returned. The printer waits for a square or has returned.
\<close>

datatype gstate = Generating int | GenClosed

datatype sstate = SqRanging | SqHolding int | SqClosed

datatype rstate = Reading | ReadDone

datatype pevent =
  Passed int
| NumbersClosed
| PipelineResult int
| SquaresClosed
| PrintReturned

record pipeline =
  gen :: gstate
  sq :: sstate
  reader :: rstate

definition pipeline_init :: pipeline where
  "pipeline_init = \<lparr>gen = Generating 1, sq = SqRanging, reader = Reading\<rparr>"

text \<open>One step of each of the three goroutines.\<close>

definition generateNumbers :: "int \<Rightarrow> pipeline \<Rightarrow> (pevent \<times> pipeline) option" where
  "generateNumbers cnt s =
     (case gen s of
        Generating i \<Rightarrow>
          if i \<le> cnt
          then (if sq s = SqRanging
                then Some (Passed i, s\<lparr>gen := Generating (wrap64 (i + 1)), sq := SqHolding i\<rparr>)
                else None)
          else Some (NumbersClosed, s\<lparr>gen := GenClosed\<rparr>)
      | GenClosed \<Rightarrow> None)"

definition squareNumbers :: "pipeline \<Rightarrow> (pevent \<times> pipeline) option" where
  "squareNumbers s =
     (case sq s of
        SqRanging \<Rightarrow>
          if gen s = GenClosed then Some (SquaresClosed, s\<lparr>sq := SqClosed\<rparr>) else None
      | SqHolding num \<Rightarrow>
          if reader s = Reading
          then Some (PipelineResult (wrap64 (num * num)), s\<lparr>sq := SqRanging\<rparr>)
          else None
      | SqClosed \<Rightarrow> None)"

definition printNumbers :: "pipeline \<Rightarrow> (pevent \<times> pipeline) option" where
  "printNumbers s =
     (case reader s of
        Reading \<Rightarrow>
          if sq s = SqClosed then Some (PrintReturned, s\<lparr>reader := ReadDone\<rparr>) else None
      | ReadDone \<Rightarrow> None)"

datatype goroutine = Generator | Squarer | Printer

fun pipeline_step :: "int \<Rightarrow> goroutine \<Rightarrow> pipeline \<Rightarrow> (pevent \<times> pipeline) option" where
  "pipeline_step cnt Generator s = generateNumbers cnt s"
| "pipeline_step cnt Squarer s = squareNumbers s"
| "pipeline_step cnt Printer s = printNumbers s"

inductive pipeline_exec :: "int \<Rightarrow> pevent list \<Rightarrow> pipeline \<Rightarrow> bool" for cnt where
  pipeline_start: "pipeline_exec cnt [] pipeline_init"
| pipeline_next: "pipeline_exec cnt tr s \<Longrightarrow> pipeline_step cnt g s = Some (e, s')
     \<Longrightarrow> pipeline_exec cnt (tr @ [e]) s'"

fun pipeline_schedule ::
  "int \<Rightarrow> goroutine list \<Rightarrow> pevent list \<times> pipeline \<Rightarrow> (pevent list \<times> pipeline) option" where
  "pipeline_schedule cnt [] c = Some c"
| "pipeline_schedule cnt (g # gs) (tr, s) =
     (case pipeline_step cnt g s of
        None \<Rightarrow> None
      | Some (e, s') \<Rightarrow> pipeline_schedule cnt gs (tr @ [e], s'))"

fun squareOf :: "pevent \<Rightarrow> int list" where
  "squareOf (PipelineResult v) = [v]"
| "squareOf _ = []"

definition delivered :: "pevent list \<Rightarrow> int list" where
  "delivered tr = concat (map squareOf tr)"

fun numbersOp :: "pevent \<Rightarrow> bool" where
  "numbersOp (Passed i) = True"
| "numbersOp NumbersClosed = True"
| "numbersOp _ = False"

definition pipeline_blocked :: "int \<Rightarrow> pipeline \<Rightarrow> bool" where
  "pipeline_blocked cnt s \<longleftrightarrow>
     generateNumbers cnt s = None \<and> squareNumbers s = None \<and> printNumbers s = None"

section \<open>Invariants and measures\<close>

text \<open>
  What holds in every reachable state of the pool. \<open>inflight\<close> lists the jobs workers
  hold; \<open>submitted_by\<close> the jobs main has sent so far. Every job sent is in exactly one
  place: still queued, held by a worker, waiting as a result, or collected
  (\<open>conserved\<close>). \<open>potential\<close> counts the steps that remain, and falls by one with
  every step.
\<close>

fun held :: "int \<times> wstate \<Rightarrow> int list" where
  "held (wid, Holding job) = [job]"
| "held (wid, Ranging) = []"
| "held (wid, Exited) = []"

definition inflight :: "pool \<Rightarrow> int list" where
  "inflight s = concat (map held (workers s))"

fun submitted_by :: "int \<Rightarrow> mstate \<Rightarrow> int list" where
  "submitted_by numJobs (Spawning w) = []"
| "submitted_by numJobs (Sending j) = [1..j - 1]"
| "submitted_by numJobs (Collecting r) = [1..numJobs]"
| "submitted_by numJobs Returned = [1..numJobs]"
| "submitted_by numJobs Panicked = []"

definition pc_inv :: "int \<Rightarrow> int \<Rightarrow> event list \<Rightarrow> pool \<Rightarrow> bool" where
  "pc_inv numWorkers numJobs tr s \<longleftrightarrow>
     (case mainpc s of
        Spawning w \<Rightarrow> 1 \<le> w \<and> w \<le> max 1 (numWorkers + 1) \<and> int (length (workers s)) = w - 1
          \<and> \<not> jobsClosed s \<and> collected tr = []
      | Sending j \<Rightarrow> 1 \<le> j \<and> j \<le> max 1 (numJobs + 1) \<and> length (workers s) = nat numWorkers
          \<and> \<not> jobsClosed s \<and> collected tr = []
      | Collecting r \<Rightarrow> 1 \<le> r \<and> r \<le> max 1 (numJobs + 1) \<and> length (workers s) = nat numWorkers
          \<and> jobsClosed s \<and> int (length (collected tr)) = r - 1
      | Returned \<Rightarrow> length (workers s) = nat numWorkers \<and> jobsClosed s
          \<and> length (collected tr) = nat numJobs
      | Panicked \<Rightarrow> False)"

definition conserved :: "int \<Rightarrow> event list \<Rightarrow> pool \<Rightarrow> bool" where
  "conserved numJobs tr s \<longleftrightarrow>
     mset (collected tr) + mset (results s) + image_mset transform (mset (inflight s))
       + image_mset transform (mset (jobs s))
     = image_mset transform (mset (submitted_by numJobs (mainpc s)))"

definition caps_inv :: "pool \<Rightarrow> bool" where
  "caps_inv s \<longleftrightarrow> length (jobs s) \<le> chanCap \<and> length (results s) \<le> chanCap"

definition exited_inv :: "pool \<Rightarrow> bool" where
  "exited_inv s \<longleftrightarrow> ((\<exists>wid. (wid, Exited) \<in> set (workers s)) \<longrightarrow> jobsClosed s \<and> jobs s = [])"

definition processed_inv :: "int \<Rightarrow> event list \<Rightarrow> pool \<Rightarrow> bool" where
  "processed_inv numJobs tr s \<longleftrightarrow>
     mset (processed tr) + mset (jobs s) = mset (submitted_by numJobs (mainpc s))"

definition intake_inv :: "int \<Rightarrow> event list \<Rightarrow> pool \<Rightarrow> bool" where
  "intake_inv numJobs tr s \<longleftrightarrow>
     filter intakeOp tr
       = map Submitted (submitted_by numJobs (mainpc s)) @ (if jobsClosed s then [JobsClosed] else [])"

definition ordered_inv :: "int \<Rightarrow> event list \<Rightarrow> pool \<Rightarrow> bool" where
  "ordered_inv numJobs tr s \<longleftrightarrow>
     (length (workers s) \<le> 1 \<longrightarrow>
        collected tr @ results s @ map transform (inflight s) @ map transform (jobs s)
          = map transform (submitted_by numJobs (mainpc s)))"

definition pool_inv :: "int \<Rightarrow> int \<Rightarrow> event list \<Rightarrow> pool \<Rightarrow> bool" where
  "pool_inv numWorkers numJobs tr s \<longleftrightarrow>
     pc_inv numWorkers numJobs tr s \<and> conserved numJobs tr s \<and> caps_inv s \<and> exited_inv s
     \<and> processed_inv numJobs tr s \<and> intake_inv numJobs tr s \<and> ordered_inv numJobs tr s"

fun wpot :: "int \<times> wstate \<Rightarrow> nat" where
  "wpot (wid, Ranging) = 1"
| "wpot (wid, Holding job) = 2"
| "wpot (wid, Exited) = 0"

fun mpot :: "int \<Rightarrow> int \<Rightarrow> mstate \<Rightarrow> nat" where
  "mpot W N (Spawning w) = 2 * nat (W + 1 - w) + 4 * nat N + 3"
| "mpot W N (Sending j) = 3 * nat (N + 1 - j) + nat N + 2"
| "mpot W N (Collecting r) = nat (N + 1 - r) + 1"
| "mpot W N Returned = 0"
| "mpot W N Panicked = 0"

definition potential :: "int \<Rightarrow> int \<Rightarrow> pool \<Rightarrow> nat" where
  "potential W N s = mpot W N (mainpc s) + 2 * length (jobs s) + sum_list (map wpot (workers s))"

text \<open>
  What holds of the job source whatever the number of workers: the jobs sent so far are
  those the workers have received followed by those still queued (\<open>source_inv\<close>). What
  the workers have sent is what main has collected followed by what still waits in
  \<open>results\<close> (\<open>produced_fifo\<close>), and it is the image of the jobs received, apart from
  those still held (\<open>produced_img\<close>).
\<close>

definition source_inv :: "int \<Rightarrow> event list \<Rightarrow> pool \<Rightarrow> bool" where
  "source_inv numJobs tr s \<longleftrightarrow>
     (case mainpc s of
        Spawning w \<Rightarrow> \<not> jobsClosed s
      | Sending j \<Rightarrow> 1 \<le> j \<and> j \<le> max 1 (numJobs + 1) \<and> \<not> jobsClosed s
      | Collecting r \<Rightarrow> jobsClosed s
      | Returned \<Rightarrow> jobsClosed s
      | Panicked \<Rightarrow> False)
     \<and> filter intakeOp tr
         = map Submitted (submitted_by numJobs (mainpc s))
           @ (if jobsClosed s then [JobsClosed] else [])
     \<and> processed tr @ jobs s = submitted_by numJobs (mainpc s)"



fun generated :: "int \<Rightarrow> gstate \<Rightarrow> int list" where
  "generated cnt (Generating i) = [1..i - 1]"
| "generated cnt GenClosed = [1..cnt]"

fun pending :: "sstate \<Rightarrow> int list" where
  "pending (SqHolding num) = [num]"
| "pending SqRanging = []"
| "pending SqClosed = []"

definition pipeline_inv :: "int \<Rightarrow> pevent list \<Rightarrow> pipeline \<Rightarrow> bool" where
  "pipeline_inv cnt tr s \<longleftrightarrow>
     (case gen s of
        Generating i \<Rightarrow> 1 \<le> i \<and> i \<le> max 1 (cnt + 1) \<and> sq s \<noteq> SqClosed
      | GenClosed \<Rightarrow> True)
     \<and> (reader s = ReadDone \<longrightarrow> sq s = SqClosed)
     \<and> delivered tr @ map (\<lambda>n. wrap64 (n * n)) (pending (sq s))
         = map (\<lambda>n. wrap64 (n * n)) (generated cnt (gen s))
     \<and> filter numbersOp tr
         = map Passed (generated cnt (gen s)) @ (if gen s = GenClosed then [NumbersClosed] else [])"

fun gpot :: "int \<Rightarrow> gstate \<Rightarrow> nat" where
  "gpot cnt (Generating i) = 2 * nat (cnt + 1 - i) + 1"
| "gpot cnt GenClosed = 0"

fun spot :: "sstate \<Rightarrow> nat" where
  "spot SqRanging = 1"
| "spot (SqHolding num) = 2"
| "spot SqClosed = 0"

fun rpot :: "rstate \<Rightarrow> nat" where
  "rpot Reading = 1"
| "rpot ReadDone = 0"

definition pipeline_potential :: "int \<Rightarrow> pipeline \<Rightarrow> nat" where
  "pipeline_potential cnt s = gpot cnt (gen s) + spot (sq s) + rpot (reader s)"

text \<open>The number the squarer holds is the last one the generator sent.\<close>

definition handover_inv :: "int \<Rightarrow> pipeline \<Rightarrow> bool" where
  "handover_inv cnt s \<longleftrightarrow>
     (\<forall>num. sq s = SqHolding num \<longrightarrow> 1 \<le> num \<and> generated cnt (gen s) = [1..num])"

chapter \<open>Properties\<close>

section \<open>Go integers\<close>

lemma wrap64_id: "- (2 ^ 63) \<le> x \<Longrightarrow> x < 2 ^ 63 \<Longrightarrow> wrap64 x = x"
  by (simp add: wrap64_def)

lemma wrap64_succ: "1 \<le> x \<Longrightarrow> x < maxInt \<Longrightarrow> wrap64 (x + 1) = x + 1"
  by (rule wrap64_id) (simp_all add: maxInt_def)

lemma wrap64_le: "wrap64 x \<le> maxInt"
proof -
  have "(x + 2 ^ 63) mod 2 ^ 64 < (2 ^ 64 :: int)"
    by (rule pos_mod_bound) simp
  then show ?thesis by (simp add: wrap64_def maxInt_def)
qed

lemma one_le_maxInt: "1 \<le> maxInt"
  by (simp add: maxInt_def)

section \<open>The REST handlers\<close>

lemma TrimSpace_Nil: "TrimSpace [] = []"
  by (simp add: TrimSpace_def)

lemma validate_rejects:
  assumes "reqName req = [] \<or> reqEmail req = [] \<or> \<not> ContainsAt (reqEmail req)
             \<or> reqAge req < 0 \<or> reqAge req > 150"
  shows "validateCreateUserRequest req \<noteq> []"
  using assms by (auto simp: validateCreateUserRequest_def Let_def TrimSpace_Nil)

text \<open>
  C8. \<open>createUser\<close> is atomic on validation failure: when the decoded body has an empty
  name, an empty email, an email without \<open>@\<close>, or an age outside 0..150, the handler
  answers with status 400 and returns the server state (the users map and the
  \<open>nextUserID\<close> counter) as it was.
\<close>

theorem createUser_invalid_atomic:
  assumes "reqName req = [] \<or> reqEmail req = [] \<or> \<not> ContainsAt (reqEmail req)
             \<or> reqAge req < 0 \<or> reqAge req > 150"
  shows "statusCode (fst (createUser now (Decoded req) s)) = 400
         \<and> snd (createUser now (Decoded req) s) = s
         \<and> users (snd (createUser now (Decoded req) s)) = users s
         \<and> nextUserID (snd (createUser now (Decoded req) s)) = nextUserID s"
proof -
  have "validateCreateUserRequest req \<noteq> []"
    using assms by (rule validate_rejects)
  then show ?thesis
    by (simp add: createUser_def Let_def respondWithValidationErrors_def respondWithJSON_def)
qed

theorem createUser_invalid_atomic_witness:
  "statusCode (fst (createUser 7 (Decoded \<lparr>reqName = [], reqEmail = [97, 64, 98], reqAge = 30\<rparr>)
       \<lparr>users = Map.empty, nextUserID = 3\<rparr>)) = 400
   \<and> snd (createUser 7 (Decoded \<lparr>reqName = [], reqEmail = [97, 64, 98], reqAge = 30\<rparr>)
       \<lparr>users = Map.empty, nextUserID = 3\<rparr>) = \<lparr>users = Map.empty, nextUserID = 3\<rparr>"
  using createUser_invalid_atomic
    [of "\<lparr>reqName = [], reqEmail = [97, 64, 98], reqAge = 30\<rparr>" 7
        "\<lparr>users = Map.empty, nextUserID = 3\<rparr>"]
  by simp

text \<open>
  C9. \<open>updateUser\<close> on an existing user keeps the user's \<open>ID\<close> and \<open>CreatedAt\<close> whatever
  the body is. When a request is decoded, each of \<open>Name\<close>, \<open>Email\<close> and \<open>Age\<close> takes
  the value the request carries and stays as it was when the request leaves it out (so
  only those and \<open>UpdatedAt\<close> can change); when the body cannot be read or decoded the
  entry is untouched. Every other entry of the map and the \<open>nextUserID\<close> counter are
  unchanged.
\<close>

theorem updateUser_frame:
  assumes "users s userID = Some u"
  shows "\<exists>u'. users (snd (updateUser now b userID s)) userID = Some u'
           \<and> ID u' = ID u \<and> CreatedAt u' = CreatedAt u
           \<and> (case b of
                 Decoded req \<Rightarrow>
                   Name u' = (case updName req of None \<Rightarrow> Name u | Some n \<Rightarrow> n)
                   \<and> Email u' = (case updEmail req of None \<Rightarrow> Email u | Some e \<Rightarrow> e)
                   \<and> Age u' = (case updAge req of None \<Rightarrow> Age u | Some a \<Rightarrow> a)
                   \<and> UpdatedAt u' = now
               | _ \<Rightarrow> u' = u)
           \<and> (\<forall>k. k \<noteq> userID \<longrightarrow> users (snd (updateUser now b userID s)) k = users s k)
           \<and> nextUserID (snd (updateUser now b userID s)) = nextUserID s"
  using assms
  by (cases b) (auto simp: updateUser_def Let_def split: option.splits)

theorem updateUser_frame_witness:
  "\<exists>u'. users (snd (updateUser 9
            (Decoded \<lparr>updName = Some [66], updEmail = None, updAge = None\<rparr>) 1
            \<lparr>users = [1 \<mapsto> \<lparr>ID = 1, Name = [65], Email = [97, 64, 98], Age = 25,
                               CreatedAt = 2, UpdatedAt = 2\<rparr>], nextUserID = 2\<rparr>)) 1 = Some u'
         \<and> ID u' = 1 \<and> CreatedAt u' = 2 \<and> Name u' = [66] \<and> Email u' = [97, 64, 98]
         \<and> Age u' = 25 \<and> UpdatedAt u' = 9"
proof -
  let ?u = "\<lparr>ID = 1, Name = [65], Email = [97, 64, 98], Age = 25, CreatedAt = 2, UpdatedAt = 2\<rparr>"
  let ?s = "\<lparr>users = [1 \<mapsto> ?u], nextUserID = 2\<rparr>"
  let ?b = "Decoded \<lparr>updName = Some [66], updEmail = None, updAge = None\<rparr>"
  have h: "users ?s 1 = Some ?u" by simp
  from updateUser_frame [OF h, of 9 ?b] obtain u' where
    "users (snd (updateUser 9 ?b 1 ?s)) 1 = Some u'" "ID u' = 1" "CreatedAt u' = 2"
    "Name u' = [66]" "Email u' = [97, 64, 98]" "Age u' = 25" "UpdatedAt u' = 9"
    by auto
  then show ?thesis by blast
qed

section \<open>The worker pool: steps and invariants\<close>

lemma collected_snoc [simp]: "collected (tr @ [e]) = collected tr @ resultOf e"
  by (simp add: collected_def)

lemma collected_Nil [simp]: "collected [] = []"
  by (simp add: collected_def)

lemma demonstrateWorkerPool_cases:
  assumes "demonstrateWorkerPool W N s = Some (e, s')"
  obtains
    (spawn) w where "mainpc s = Spawning w" "w \<le> W" "e = Started w"
      "s' = s\<lparr>workers := workers s @ [(w, Ranging)], mainpc := Spawning (wrap64 (w + 1))\<rparr>"
  | (spawned) w where "mainpc s = Spawning w" "\<not> w \<le> W" "e = AllStarted"
      "s' = s\<lparr>mainpc := Sending 1\<rparr>"
  | (send) j where "mainpc s = Sending j" "j \<le> N" "\<not> jobsClosed s" "length (jobs s) < chanCap"
      "e = Submitted j" "s' = s\<lparr>jobs := jobs s @ [j], mainpc := Sending (wrap64 (j + 1))\<rparr>"
  | (panic) j where "mainpc s = Sending j" "jobsClosed s" "e = Panic" "s' = s\<lparr>mainpc := Panicked\<rparr>"
  | (close) j where "mainpc s = Sending j" "\<not> j \<le> N" "\<not> jobsClosed s" "e = JobsClosed"
      "s' = s\<lparr>jobsClosed := True, mainpc := Collecting 1\<rparr>"
  | (collect) r x xs where "mainpc s = Collecting r" "r \<le> N" "results s = x # xs" "e = Result x"
      "s' = s\<lparr>results := xs, mainpc := Collecting (wrap64 (r + 1))\<rparr>"
  | (finish) r where "mainpc s = Collecting r" "\<not> r \<le> N" "e = Finished" "s' = s\<lparr>mainpc := Returned\<rparr>"
  using assms unfolding demonstrateWorkerPool_def
  by (auto split: mstate.splits if_splits list.splits)

lemma worker_cases:
  assumes "worker k s = Some (e, s')"
  obtains
    (take) wid job rest where "k < length (workers s)" "workers s ! k = (wid, Ranging)"
      "jobs s = job # rest" "e = Processing wid job"
      "s' = s\<lparr>jobs := rest, workers := (workers s)[k := (wid, Holding job)]\<rparr>"
  | (leave) wid where "k < length (workers s)" "workers s ! k = (wid, Ranging)"
      "jobs s = []" "jobsClosed s" "e = WorkerDone wid"
      "s' = s\<lparr>workers := (workers s)[k := (wid, Exited)]\<rparr>"
  | (produce) wid job where "k < length (workers s)" "workers s ! k = (wid, Holding job)"
      "length (results s) < chanCap" "e = Produced wid (transform job)"
      "s' = s\<lparr>results := results s @ [transform job], workers := (workers s)[k := (wid, Ranging)]\<rparr>"
  using assms unfolding worker_def
  by (auto split: prod.splits wstate.splits if_splits list.splits)

lemma pool_step_cases:
  assumes "pool_step W N a s = Some (e, s')"
  obtains (main) "a = 0" "demonstrateWorkerPool W N s = Some (e, s')"
  | (work) k where "a = Suc k" "worker k s = Some (e, s')"
  using assms unfolding pool_step_def by (cases a) auto

lemma pc_inv_init: "pc_inv W N [] pool_init"
  by (simp add: pc_inv_def pool_init_def)

lemma pc_inv_step:
  assumes W: "W < maxInt" and N: "N < maxInt"
    and inv: "pc_inv W N tr s" and st: "pool_step W N a s = Some (e, s')"
  shows "pc_inv W N (tr @ [e]) s'"
  using st
proof (cases rule: pool_step_cases)
  case main
  from main(2) show ?thesis
  proof (cases rule: demonstrateWorkerPool_cases)
    case (spawn w)
    with inv W show ?thesis
      by (auto simp: pc_inv_def wrap64_succ)
  next
    case (spawned w)
    with inv show ?thesis by (auto simp: pc_inv_def)
  next
    case (send j)
    with inv N show ?thesis by (auto simp: pc_inv_def wrap64_succ)
  next
    case (panic j)
    with inv show ?thesis by (auto simp: pc_inv_def)
  next
    case (close j)
    with inv show ?thesis by (auto simp: pc_inv_def)
  next
    case (collect r x xs)
    with inv N show ?thesis by (auto simp: pc_inv_def wrap64_succ)
  next
    case (finish r)
    with inv show ?thesis by (auto simp: pc_inv_def)
  qed
next
  case (work k)
  from work(2) show ?thesis
  proof (cases rule: worker_cases)
    case (take wid job rest)
    with inv show ?thesis by (auto simp: pc_inv_def split: mstate.splits)
  next
    case (leave wid)
    with inv show ?thesis by (auto simp: pc_inv_def split: mstate.splits)
  next
    case (produce wid job)
    with inv show ?thesis by (auto simp: pc_inv_def split: mstate.splits)
  qed
qed

lemma pool_step_kinds:
  assumes "pool_step W N a s = Some (e, s')"
  obtains
    (spawn) w where "a = 0" "mainpc s = Spawning w" "w \<le> W" "e = Started w"
      "s' = s\<lparr>workers := workers s @ [(w, Ranging)], mainpc := Spawning (wrap64 (w + 1))\<rparr>"
  | (spawned) w where "a = 0" "mainpc s = Spawning w" "\<not> w \<le> W" "e = AllStarted"
      "s' = s\<lparr>mainpc := Sending 1\<rparr>"
  | (send) j where "a = 0" "mainpc s = Sending j" "j \<le> N" "\<not> jobsClosed s"
      "length (jobs s) < chanCap" "e = Submitted j"
      "s' = s\<lparr>jobs := jobs s @ [j], mainpc := Sending (wrap64 (j + 1))\<rparr>"
  | (panic) j where "a = 0" "mainpc s = Sending j" "jobsClosed s" "e = Panic"
      "s' = s\<lparr>mainpc := Panicked\<rparr>"
  | (close) j where "a = 0" "mainpc s = Sending j" "\<not> j \<le> N" "\<not> jobsClosed s" "e = JobsClosed"
      "s' = s\<lparr>jobsClosed := True, mainpc := Collecting 1\<rparr>"
  | (collect) r x xs where "a = 0" "mainpc s = Collecting r" "r \<le> N" "results s = x # xs"
      "e = Result x" "s' = s\<lparr>results := xs, mainpc := Collecting (wrap64 (r + 1))\<rparr>"
  | (finish) r where "a = 0" "mainpc s = Collecting r" "\<not> r \<le> N" "e = Finished"
      "s' = s\<lparr>mainpc := Returned\<rparr>"
  | (take) k wid job rest where "a = Suc k" "k < length (workers s)"
      "workers s ! k = (wid, Ranging)" "jobs s = job # rest" "e = Processing wid job"
      "s' = s\<lparr>jobs := rest, workers := (workers s)[k := (wid, Holding job)]\<rparr>"
  | (leave) k wid where "a = Suc k" "k < length (workers s)" "workers s ! k = (wid, Ranging)"
      "jobs s = []" "jobsClosed s" "e = WorkerDone wid"
      "s' = s\<lparr>workers := (workers s)[k := (wid, Exited)]\<rparr>"
  | (produce) k wid job where "a = Suc k" "k < length (workers s)"
      "workers s ! k = (wid, Holding job)" "length (results s) < chanCap"
      "e = Produced wid (transform job)"
      "s' = s\<lparr>results := results s @ [transform job], workers := (workers s)[k := (wid, Ranging)]\<rparr>"
  using assms
proof (cases rule: pool_step_cases)
  case main
  from main(2) show ?thesis
  proof (cases rule: demonstrateWorkerPool_cases)
    case (spawn w)
    from that(1) [OF main(1) spawn] show ?thesis .
  next
    case (spawned w)
    from that(2) [OF main(1) spawned] show ?thesis .
  next
    case (send j)
    from that(3) [OF main(1) send] show ?thesis .
  next
    case (panic j)
    from that(4) [OF main(1) panic] show ?thesis .
  next
    case (close j)
    from that(5) [OF main(1) close] show ?thesis .
  next
    case (collect r x xs)
    from that(6) [OF main(1) collect] show ?thesis .
  next
    case (finish r)
    from that(7) [OF main(1) finish] show ?thesis .
  qed
next
  case (work k)
  from work(2) show ?thesis
  proof (cases rule: worker_cases)
    case (take wid job rest)
    from that(8) [OF work(1) take] show ?thesis .
  next
    case (leave wid)
    from that(9) [OF work(1) leave] show ?thesis .
  next
    case (produce wid job)
    from that(10) [OF work(1) produce] show ?thesis .
  qed
qed

lemma held_update:
  assumes "k < length ws" "ws ! k = x"
  shows "mset (concat (map held (ws[k := y]))) + mset (held x)
         = mset (concat (map held ws)) + mset (held y)"
  using assms
proof (induction ws arbitrary: k)
  case Nil
  then show ?case by simp
next
  case (Cons w ws)
  then show ?case by (cases k) auto
qed

lemma upto_snoc1: "1 \<le> j \<Longrightarrow> [1..j] = [1..j - 1] @ [j]"
  by (rule upto_rec2)

lemma closing_upto:
  assumes "1 \<le> j" "j \<le> max 1 (N + 1)" "\<not> j \<le> N"
  shows "[1..j - 1] = [1..N]"
proof (cases "0 \<le> N")
  case True
  with assms have "j = N + 1" by simp
  then show ?thesis by simp
next
  case False
  with assms have "j = 1" by simp
  with False show ?thesis by simp
qed

lemma conserved_init: "conserved N [] pool_init"
  by (simp add: conserved_def pool_init_def inflight_def)

lemma conserved_step:
  assumes W: "W < maxInt" and N: "N < maxInt"
    and pc: "pc_inv W N tr s" and inv: "conserved N tr s"
    and st: "pool_step W N a s = Some (e, s')"
  shows "conserved N (tr @ [e]) s'"
  using st
proof (cases rule: pool_step_kinds)
  case (send j)
  with pc N have "1 \<le> j" "wrap64 (j + 1) = j + 1"
    by (auto simp: pc_inv_def wrap64_succ)
  with send inv show ?thesis
    by (simp add: conserved_def inflight_def upto_snoc1)
next
  case (close j)
  with pc have "[1..j - 1] = [1..N]"
    by (auto simp: pc_inv_def intro: closing_upto)
  with close inv show ?thesis
    by (simp add: conserved_def inflight_def)
next
  case (panic j)
  with pc show ?thesis by (simp add: pc_inv_def)
next
  case (take k wid job rest)
  from held_update [OF take(2,3), of "(wid, Holding job)"]
  have "mset (concat (map held ((workers s)[k := (wid, Holding job)])))
          = add_mset job (mset (concat (map held (workers s))))"
    by simp
  with take inv show ?thesis
    by (simp add: conserved_def inflight_def)
next
  case (leave k wid)
  from held_update [OF leave(2,3), of "(wid, Exited)"]
  have "mset (concat (map held ((workers s)[k := (wid, Exited)])))
          = mset (concat (map held (workers s)))"
    by simp
  with leave inv show ?thesis
    by (simp add: conserved_def inflight_def)
next
  case (produce k wid job)
  from held_update [OF produce(2,3), of "(wid, Ranging)"]
  have H: "mset (concat (map held (workers s)))
          = add_mset job (mset (concat (map held ((workers s)[k := (wid, Ranging)]))))"
    by simp
  from inv produce show ?thesis
    unfolding conserved_def inflight_def by (simp add: H)
qed (use inv in \<open>auto simp: conserved_def inflight_def\<close>)

lemma caps_inv_step:
  assumes inv: "caps_inv s" and st: "pool_step W N a s = Some (e, s')"
  shows "caps_inv s'"
  using st by (cases rule: pool_step_kinds) (use inv in \<open>auto simp: caps_inv_def\<close>)

lemma exited_inv_step:
  assumes inv: "exited_inv s" and st: "pool_step W N a s = Some (e, s')"
  shows "exited_inv s'"
  using st
proof (cases rule: pool_step_kinds)
  case (send j)
  with inv show ?thesis by (auto simp: exited_inv_def)
next
  case (close j)
  with inv show ?thesis by (auto simp: exited_inv_def)
next
  case (take k wid job rest)
  with inv have "\<forall>w. (w, Exited) \<notin> set (workers s)"
    by (auto simp: exited_inv_def)
  moreover have "set ((workers s)[k := (wid, Holding job)]) \<subseteq> insert (wid, Holding job) (set (workers s))"
    by (rule set_update_subset_insert)
  ultimately show ?thesis using take by (auto simp: exited_inv_def)
next
  case (produce k wid job)
  have "set ((workers s)[k := (wid, Ranging)]) \<subseteq> insert (wid, Ranging) (set (workers s))"
    by (rule set_update_subset_insert)
  with inv produce show ?thesis by (auto simp: exited_inv_def)
qed (use inv in \<open>auto simp: exited_inv_def\<close>)

lemma processed_snoc [simp]: "processed (tr @ [e]) = processed tr @ jobOf e"
  by (simp add: processed_def)

lemma processed_Nil [simp]: "processed [] = []"
  by (simp add: processed_def)

lemma processed_inv_step:
  assumes N: "N < maxInt"
    and pc: "pc_inv W N tr s" and inv: "processed_inv N tr s"
    and st: "pool_step W N a s = Some (e, s')"
  shows "processed_inv N (tr @ [e]) s'"
  using st
proof (cases rule: pool_step_kinds)
  case (send j)
  with pc N have "1 \<le> j" "wrap64 (j + 1) = j + 1"
    by (auto simp: pc_inv_def wrap64_succ)
  with send inv show ?thesis
    by (simp add: processed_inv_def upto_snoc1)
next
  case (close j)
  with pc have "[1..j - 1] = [1..N]"
    by (auto simp: pc_inv_def intro: closing_upto)
  with close inv show ?thesis
    by (simp add: processed_inv_def)
next
  case (panic j)
  with pc show ?thesis by (simp add: pc_inv_def)
qed (use inv in \<open>auto simp: processed_inv_def\<close>)

lemma intake_inv_step:
  assumes N: "N < maxInt"
    and pc: "pc_inv W N tr s" and inv: "intake_inv N tr s"
    and st: "pool_step W N a s = Some (e, s')"
  shows "intake_inv N (tr @ [e]) s'"
  using st
proof (cases rule: pool_step_kinds)
  case (send j)
  with pc N have "1 \<le> j" "wrap64 (j + 1) = j + 1"
    by (auto simp: pc_inv_def wrap64_succ)
  with send inv show ?thesis
    by (simp add: intake_inv_def upto_snoc1)
next
  case (close j)
  with pc have "[1..j - 1] = [1..N]"
    by (auto simp: pc_inv_def intro: closing_upto)
  with close inv show ?thesis
    by (simp add: intake_inv_def)
next
  case (panic j)
  with pc show ?thesis by (simp add: pc_inv_def)
next
  case (collect r x xs)
  with pc inv show ?thesis by (simp add: intake_inv_def pc_inv_def)
next
  case (finish r)
  with pc inv show ?thesis by (simp add: intake_inv_def pc_inv_def)
qed (use inv in \<open>auto simp: intake_inv_def\<close>)

lemma single_worker:
  assumes "length ws \<le> Suc 0" "k < length ws"
  shows "k = 0 \<and> ws = [ws ! 0]"
  using assms by (cases ws) auto

lemma ordered_inv_step:
  assumes N: "N < maxInt"
    and pc: "pc_inv W N tr s" and inv: "ordered_inv N tr s"
    and st: "pool_step W N a s = Some (e, s')"
  shows "ordered_inv N (tr @ [e]) s'"
  using st
proof (cases rule: pool_step_kinds)
  case (spawn w)
  with pc have "submitted_by N (mainpc s) = []" by simp
  with inv spawn show ?thesis
    by (auto simp: ordered_inv_def inflight_def)
next
  case (send j)
  with pc N have "1 \<le> j" "wrap64 (j + 1) = j + 1"
    by (auto simp: pc_inv_def wrap64_succ)
  with send inv show ?thesis
    by (simp add: ordered_inv_def inflight_def upto_snoc1)
next
  case (close j)
  with pc have "[1..j - 1] = [1..N]"
    by (auto simp: pc_inv_def intro: closing_upto)
  with close inv show ?thesis
    by (simp add: ordered_inv_def inflight_def)
next
  case (panic j)
  with pc show ?thesis by (simp add: pc_inv_def)
next
  case (take k wid job rest)
  show ?thesis
    unfolding ordered_inv_def
  proof
    assume "length (workers s') \<le> 1"
    with take have len: "length (workers s) \<le> Suc 0" by simp
    from single_worker [OF len take(2)] take(3)
    have "k = 0" "workers s = [(wid, Ranging)]" by auto
    with take inv len show "collected (tr @ [e]) @ results s' @ map transform (inflight s')
        @ map transform (jobs s') = map transform (submitted_by N (mainpc s'))"
      by (simp add: ordered_inv_def inflight_def)
  qed
next
  case (leave k wid)
  show ?thesis
    unfolding ordered_inv_def
  proof
    assume "length (workers s') \<le> 1"
    with leave have len: "length (workers s) \<le> Suc 0" by simp
    from single_worker [OF len leave(2)] leave(3)
    have "k = 0" "workers s = [(wid, Ranging)]" by auto
    with leave inv len show "collected (tr @ [e]) @ results s' @ map transform (inflight s')
        @ map transform (jobs s') = map transform (submitted_by N (mainpc s'))"
      by (simp add: ordered_inv_def inflight_def)
  qed
next
  case (produce k wid job)
  show ?thesis
    unfolding ordered_inv_def
  proof
    assume "length (workers s') \<le> 1"
    with produce have len: "length (workers s) \<le> Suc 0" by simp
    from single_worker [OF len produce(2)] produce(3)
    have "k = 0" "workers s = [(wid, Holding job)]" by auto
    with produce inv len show "collected (tr @ [e]) @ results s' @ map transform (inflight s')
        @ map transform (jobs s') = map transform (submitted_by N (mainpc s'))"
      by (simp add: ordered_inv_def inflight_def)
  qed
qed (use inv in \<open>auto simp: ordered_inv_def inflight_def\<close>)

lemma pool_inv_init: "pool_inv W N [] pool_init"
  unfolding pool_inv_def
  by (simp add: pc_inv_init conserved_init)
     (simp add: caps_inv_def exited_inv_def processed_inv_def intake_inv_def ordered_inv_def
        pool_init_def inflight_def)

lemma pool_inv_step:
  assumes "W < maxInt" "N < maxInt" "pool_inv W N tr s" "pool_step W N a s = Some (e, s')"
  shows "pool_inv W N (tr @ [e]) s'"
  using assms unfolding pool_inv_def
  by (blast intro: pc_inv_step conserved_step caps_inv_step exited_inv_step processed_inv_step
      intake_inv_step ordered_inv_step)

lemma pool_exec_inv:
  assumes "W < maxInt" "N < maxInt" "pool_exec W N tr s"
  shows "pool_inv W N tr s"
  using assms(3)
proof (induction rule: pool_exec.induct)
  case pool_start
  show ?case by (rule pool_inv_init)
next
  case (pool_next tr s a e s')
  with assms(1,2) show ?case by (blast intro: pool_inv_step)
qed

lemma wpot_update:
  assumes "k < length ws" "ws ! k = x"
  shows "sum_list (map wpot (ws[k := y])) + wpot x = sum_list (map wpot ws) + wpot y"
  using assms
proof (induction ws arbitrary: k)
  case Nil
  then show ?case by simp
next
  case (Cons w ws)
  then show ?case by (cases k) auto
qed

subsection \<open>Every step uses up potential\<close>

lemma potential_step:
  assumes W: "W < maxInt" and N: "N < maxInt"
    and pc: "pc_inv W N tr s" and st: "pool_step W N a s = Some (e, s')"
  shows "Suc (potential W N s') = potential W N s"
  using st
proof (cases rule: pool_step_kinds)
  case (spawn w)
  with pc W have "1 \<le> w" "wrap64 (w + 1) = w + 1"
    by (auto simp: pc_inv_def wrap64_succ)
  with spawn show ?thesis
    by (simp add: potential_def nat_diff_distrib)
next
  case (spawned w)
  with pc show ?thesis
    by (auto simp: potential_def pc_inv_def)
next
  case (send j)
  with pc N have "1 \<le> j" "wrap64 (j + 1) = j + 1"
    by (auto simp: pc_inv_def wrap64_succ)
  with send show ?thesis
    by (simp add: potential_def nat_diff_distrib)
next
  case (panic j)
  with pc show ?thesis by (simp add: pc_inv_def)
next
  case (close j)
  then show ?thesis
    by (simp add: potential_def)
next
  case (collect r x xs)
  with pc N have "1 \<le> r" "wrap64 (r + 1) = r + 1"
    by (auto simp: pc_inv_def wrap64_succ)
  with collect show ?thesis
    by (simp add: potential_def nat_diff_distrib)
next
  case (finish r)
  then show ?thesis
    by (simp add: potential_def)
next
  case (take k wid job rest)
  from wpot_update [OF take(2,3), of "(wid, Holding job)"] take show ?thesis
    by (simp add: potential_def)
next
  case (leave k wid)
  from wpot_update [OF leave(2,3), of "(wid, Exited)"] leave show ?thesis
    by (simp add: potential_def)
next
  case (produce k wid job)
  from wpot_update [OF produce(2,3), of "(wid, Ranging)"] produce show ?thesis
    by (simp add: potential_def)
qed

lemma pool_exec_length:
  assumes "W < maxInt" "N < maxInt" "pool_exec W N tr s"
  shows "length tr + potential W N s = 2 * nat W + 4 * nat N + 3"
  using assms(3)
proof (induction rule: pool_exec.induct)
  case pool_start
  show ?case by (simp add: potential_def pool_init_def)
next
  case (pool_next tr s a e s')
  from pool_exec_inv [OF assms(1,2) pool_next(1)] have "pc_inv W N tr s"
    by (simp add: pool_inv_def)
  from potential_step [OF assms(1,2) this pool_next(2)] pool_next(3)
  show ?case by simp
qed

subsection \<open>Progress\<close>

lemma worker_take_enabled:
  "k < length (workers s) \<Longrightarrow> workers s ! k = (wid, Ranging) \<Longrightarrow> jobs s \<noteq> [] \<Longrightarrow> worker k s \<noteq> None"
  by (auto simp: worker_def split: list.splits)

lemma worker_leave_enabled:
  "k < length (workers s) \<Longrightarrow> workers s ! k = (wid, Ranging) \<Longrightarrow> jobs s = [] \<Longrightarrow> jobsClosed s
   \<Longrightarrow> worker k s = Some (WorkerDone wid, s\<lparr>workers := (workers s)[k := (wid, Exited)]\<rparr>)"
  by (simp add: worker_def)

lemma worker_produce_enabled:
  "k < length (workers s) \<Longrightarrow> workers s ! k = (wid, Holding job) \<Longrightarrow> length (results s) < chanCap
   \<Longrightarrow> worker k s \<noteq> None"
  by (simp add: worker_def)

lemma conserved_sizes:
  assumes "conserved N tr s"
  shows "length (collected tr) + length (results s) + length (inflight s) + length (jobs s)
         = length (submitted_by N (mainpc s))"
proof -
  from assms have "size (mset (collected tr) + mset (results s)
      + image_mset transform (mset (inflight s)) + image_mset transform (mset (jobs s)))
    = size (image_mset transform (mset (submitted_by N (mainpc s))))"
    by (simp only: conserved_def)
  then show ?thesis by simp
qed

lemma held_all_holding:
  "(\<forall>x \<in> set ws. \<exists>wid job. x = (wid, Holding job)) \<Longrightarrow> length (concat (map held ws)) = length ws"
  by (induction ws) auto

lemma held_le: "length (concat (map held ws)) \<le> length ws"
proof (induction ws)
  case Nil
  show ?case by simp
next
  case (Cons w ws)
  obtain wid st where "w = (wid, st)" by (cases w)
  with Cons show ?case by (cases st) auto
qed

lemma held_member:
  "(wid, Holding job) \<in> set ws \<Longrightarrow> concat (map held ws) \<noteq> []"
  by (induction ws) auto

lemma held_none:
  "(\<forall>x \<in> set ws. \<forall>wid job. x \<noteq> (wid, Holding job)) \<Longrightarrow> concat (map held ws) = []"
proof (induction ws)
  case Nil
  show ?case by simp
next
  case (Cons w ws)
  obtain wid st where "w = (wid, st)" by (cases w)
  with Cons show ?case by (cases st) auto
qed

lemma blocked_workers:
  assumes bl: "\<forall>k < length (workers s). worker k s = None"
    and x: "x \<in> set (workers s)"
  shows "(\<exists>wid. x = (wid, Exited))
       \<or> (\<exists>wid. x = (wid, Ranging) \<and> jobs s = [] \<and> \<not> jobsClosed s)
       \<or> (\<exists>wid job. x = (wid, Holding job) \<and> \<not> length (results s) < chanCap)"
proof -
  from x obtain k where k: "k < length (workers s)" "workers s ! k = x"
    by (auto simp: in_set_conv_nth)
  with bl have none: "worker k s = None" by simp
  obtain wid st where xs: "x = (wid, st)" by (cases x)
  show ?thesis
  proof (cases st)
    case Ranging
    with k xs none worker_take_enabled [of k s wid] worker_leave_enabled [of k s wid]
    show ?thesis by auto
  next
    case (Holding job)
    with k xs none worker_produce_enabled [of k s wid job] show ?thesis by auto
  next
    case Exited
    with xs show ?thesis by simp
  qed
qed

lemma main_progress:
  assumes W: "1 \<le> W" "W < maxInt" and N: "N < maxInt" "N \<le> 2 * int chanCap + W"
    and inv: "pool_inv W N tr s" and bl: "pool_blocked W N s"
  shows "mainpc s = Returned"
proof (cases "mainpc s")
  case (Spawning w)
  with bl show ?thesis
    by (simp add: pool_blocked_def demonstrateWorkerPool_def split: if_splits)
next
  case (Sending j)
  from inv have pc: "pc_inv W N tr s" and co: "conserved N tr s" and cap: "caps_inv s"
    and ex: "exited_inv s"
    by (simp_all add: pool_inv_def)
  from pc Sending have j: "1 \<le> j" and opn: "\<not> jobsClosed s" and none: "collected tr = []"
    and len: "length (workers s) = nat W"
    by (simp_all add: pc_inv_def)
  from bl Sending opn have jN: "j \<le> N" and full: "\<not> length (jobs s) < chanCap"
    by (auto simp: pool_blocked_def demonstrateWorkerPool_def split: if_splits)
  from full have ne: "jobs s \<noteq> []" by (auto simp: chanCap_def)
  from bl have blw: "\<forall>k < length (workers s). worker k s = None"
    by (simp add: pool_blocked_def)
  from ex opn have noex: "\<forall>wid. (wid, Exited) \<notin> set (workers s)"
    by (auto simp: exited_inv_def)
  have hold: "\<forall>x \<in> set (workers s). (\<exists>wid job. x = (wid, Holding job)) \<and> \<not> length (results s) < chanCap"
  proof
    fix x assume "x \<in> set (workers s)"
    with blocked_workers [OF blw this] noex ne
    show "(\<exists>wid job. x = (wid, Holding job)) \<and> \<not> length (results s) < chanCap"
      by auto
  qed
  from W len have "workers s \<noteq> []" by auto
  with hold have rfull: "\<not> length (results s) < chanCap"
    by (cases "workers s") auto
  from hold have "length (inflight s) = length (workers s)"
    unfolding inflight_def by (intro held_all_holding) blast
  with conserved_sizes [OF co] Sending none len cap full rfull j
  have "2 * chanCap + nat W = nat (j - 1)"
    by (simp add: caps_inv_def)
  with W j have "j = 2 * int chanCap + W + 1" by linarith
  with jN N show ?thesis by simp
next
  case (Collecting r)
  from inv have pc: "pc_inv W N tr s" and co: "conserved N tr s" and cap: "caps_inv s"
    and ex: "exited_inv s"
    by (simp_all add: pool_inv_def)
  from pc Collecting have r: "1 \<le> r" and got: "int (length (collected tr)) = r - 1"
    and len: "length (workers s) = nat W"
    by (simp_all add: pc_inv_def)
  from bl Collecting have rN: "r \<le> N" and empty: "results s = []"
    by (auto simp: pool_blocked_def demonstrateWorkerPool_def split: if_splits list.splits)
  from bl have blw: "\<forall>k < length (workers s). worker k s = None"
    by (simp add: pool_blocked_def)
  from W len have wne: "workers s \<noteq> []" by auto
  have nohold: "\<forall>x \<in> set (workers s). \<forall>wid job. x \<noteq> (wid, Holding job)"
  proof
    fix x assume "x \<in> set (workers s)"
    with blocked_workers [OF blw this] empty
    show "\<forall>wid job. x \<noteq> (wid, Holding job)"
      by (auto simp: chanCap_def)
  qed
  then have inf: "inflight s = []"
    unfolding inflight_def by (rule held_none)
  from rN r have "length (submitted_by N (mainpc s)) = nat N"
    using Collecting by simp
  moreover from got rN r have "length (collected tr) < nat N"
    by linarith
  ultimately have "jobs s \<noteq> []"
    using conserved_sizes [OF co] inf empty by auto
  with ex have noex: "\<forall>wid. (wid, Exited) \<notin> set (workers s)"
    by (auto simp: exited_inv_def)
  from wne obtain x where x: "x \<in> set (workers s)"
    by (cases "workers s") auto
  from blocked_workers [OF blw x] noex nohold x \<open>jobs s \<noteq> []\<close>
  have False by auto
  then show ?thesis ..
next
  case Returned
  then show ?thesis .
next
  case Panicked
  with inv show ?thesis by (simp add: pool_inv_def pc_inv_def)
qed

lemma not_blocked_step:
  assumes "\<not> pool_blocked W N s"
  shows "\<exists>a e s'. pool_step W N a s = Some (e, s')"
proof -
  from assms have "demonstrateWorkerPool W N s \<noteq> None \<or> (\<exists>k. worker k s \<noteq> None)"
    by (auto simp: pool_blocked_def)
  then consider "demonstrateWorkerPool W N s \<noteq> None"
    | k where "worker k s \<noteq> None"
    by blast
  then show ?thesis
  proof cases
    case 1
    then obtain e s' where "pool_step W N 0 s = Some (e, s')"
      by (auto simp: pool_step_def)
    then show ?thesis by blast
  next
    case 2
    then obtain e s' where "pool_step W N (Suc k) s = Some (e, s')"
      by (auto simp: pool_step_def)
    then show ?thesis by blast
  qed
qed

lemma blocked_no_step:
  assumes "pool_blocked W N s"
  shows "pool_step W N a s = None"
proof (cases a)
  case 0
  with assms show ?thesis by (simp add: pool_step_def pool_blocked_def)
next
  case (Suc k)
  with assms show ?thesis
    by (cases "k < length (workers s)") (simp_all add: pool_step_def pool_blocked_def worker_def)
qed

lemma pool_quiescent:
  assumes W: "1 \<le> W" "W < maxInt" and N: "N < maxInt" "N \<le> 2 * int chanCap + W"
    and inv: "pool_inv W N tr s" and bl: "pool_blocked W N s"
  shows "mainpc s = Returned \<and> jobs s = [] \<and> results s = [] \<and> jobsClosed s
         \<and> (\<forall>x \<in> set (workers s). snd x = Exited)"
proof -
  from main_progress [OF W N inv bl] have ret: "mainpc s = Returned" .
  from inv have pc: "pc_inv W N tr s" and co: "conserved N tr s"
    by (simp_all add: pool_inv_def)
  from pc ret have cl: "jobsClosed s" and got: "length (collected tr) = nat N"
    by (simp_all add: pc_inv_def)
  from conserved_sizes [OF co] ret got
  have empty: "jobs s = []" "results s = []" "inflight s = []"
    by simp_all
  from bl have blw: "\<forall>k < length (workers s). worker k s = None"
    by (simp add: pool_blocked_def)
  have "\<forall>x \<in> set (workers s). snd x = Exited"
  proof
    fix x assume x: "x \<in> set (workers s)"
    from blocked_workers [OF blw x] cl empty(1)
    consider wid where "x = (wid, Exited)" | wid job where "x = (wid, Holding job)"
      by auto
    then show "snd x = Exited"
    proof cases
      case 1
      then show ?thesis by simp
    next
      case 2
      with x have "(wid, Holding job) \<in> set (workers s)" by simp
      then have "concat (map held (workers s)) \<noteq> []" by (rule held_member)
      with empty(3) show ?thesis by (simp add: inflight_def)
    qed
  qed
  with ret empty cl show ?thesis by simp
qed

lemma pool_completes:
  assumes W: "W < maxInt" and N: "N < maxInt" and ex: "pool_exec W N tr s"
  shows "\<exists>tr' s'. pool_exec W N (tr @ tr') s' \<and> pool_blocked W N s'"
  using ex
proof (induction "potential W N s" arbitrary: tr s rule: less_induct)
  case less
  show ?case
  proof (cases "pool_blocked W N s")
    case True
    with less.prems have "pool_exec W N (tr @ []) s \<and> pool_blocked W N s" by simp
    then show ?thesis by blast
  next
    case False
    from not_blocked_step [OF this] obtain a e s1 where st: "pool_step W N a s = Some (e, s1)"
      by blast
    from pool_exec_inv [OF W N less.prems] have "pc_inv W N tr s"
      by (simp add: pool_inv_def)
    from potential_step [OF W N this st] have "potential W N s1 < potential W N s"
      by simp
    moreover from less.prems st have "pool_exec W N (tr @ [e]) s1"
      by (rule pool_next)
    ultimately obtain tr' s' where "pool_exec W N ((tr @ [e]) @ tr') s'" "pool_blocked W N s'"
      using less.hyps by blast
    then have "pool_exec W N (tr @ (e # tr')) s' \<and> pool_blocked W N s'" by simp
    then show ?thesis by blast
  qed
qed

lemma pool_returned_results:
  assumes inv: "pool_inv W N tr s" and ret: "mainpc s = Returned"
  shows "length (collected tr) = nat N"
    and "mset (collected tr) = image_mset transform (mset [1..N])"
    and "mset (processed tr) = mset [1..N]"
    and "filter intakeOp tr = map Submitted [1..N] @ [JobsClosed]"
    and "W \<le> 1 \<Longrightarrow> collected tr = map transform [1..N]"
proof -
  from inv have pc: "pc_inv W N tr s" and co: "conserved N tr s"
    and pr: "processed_inv N tr s" and it: "intake_inv N tr s" and od: "ordered_inv N tr s"
    by (simp_all add: pool_inv_def)
  from pc ret show got: "length (collected tr) = nat N"
    by (simp add: pc_inv_def)
  from pc ret have cl: "jobsClosed s" and len: "length (workers s) = nat W"
    by (simp_all add: pc_inv_def)
  from conserved_sizes [OF co] ret got
  have empty: "jobs s = []" "results s = []" "inflight s = []"
    by simp_all
  from co ret empty show "mset (collected tr) = image_mset transform (mset [1..N])"
    by (simp add: conserved_def)
  from pr ret empty show "mset (processed tr) = mset [1..N]"
    by (simp add: processed_inv_def)
  from it ret cl show "filter intakeOp tr = map Submitted [1..N] @ [JobsClosed]"
    by (simp add: intake_inv_def)
  show "collected tr = map transform [1..N]" if "W \<le> 1"
  proof -
    from that len have "length (workers s) \<le> 1" by simp
    with od ret empty show ?thesis by (simp add: ordered_inv_def)
  qed
qed

lemma schedule_exec:
  assumes "schedule W N as (tr, s) = Some (tr', s')" "pool_exec W N tr s"
  shows "pool_exec W N tr' s'"
  using assms
proof (induction as arbitrary: tr s)
  case Nil
  then show ?case by simp
next
  case (Cons a as)
  from Cons.prems(1) obtain e s1 where st: "pool_step W N a s = Some (e, s1)"
    and rest: "schedule W N as (tr @ [e], s1) = Some (tr', s')"
    by (auto split: option.splits)
  from Cons.prems(2) st have "pool_exec W N (tr @ [e]) s1" by (rule pool_next)
  with rest show ?case by (rule Cons.IH)
qed

subsection \<open>More jobs than the pool can hold\<close>

lemma sending_bound:
  assumes W: "0 \<le> W" and inv: "pool_inv W N tr s" and pc: "mainpc s = Sending j"
  shows "j \<le> 2 * int chanCap + W + 1"
proof -
  from inv have pcv: "pc_inv W N tr s" and co: "conserved N tr s" and cap: "caps_inv s"
    by (simp_all add: pool_inv_def)
  from pcv pc have j: "1 \<le> j" and none: "collected tr = []" and len: "length (workers s) = nat W"
    by (simp_all add: pc_inv_def)
  have "length (inflight s) \<le> length (workers s)"
    unfolding inflight_def by (rule held_le)
  with conserved_sizes [OF co] pc none len cap j
  have "nat (j - 1) \<le> 2 * chanCap + nat W"
    by (simp add: caps_inv_def)
  with W j show ?thesis by linarith
qed

lemma pool_overfull:
  assumes W: "0 \<le> W" "W < maxInt" and N: "N < maxInt" "2 * int chanCap + W < N"
    and ex: "pool_exec W N tr s"
  shows "(\<exists>w. mainpc s = Spawning w) \<or> (\<exists>j. mainpc s = Sending j \<and> j \<le> N)"
  using ex
proof (induction rule: pool_exec.induct)
  case pool_start
  show ?case by (simp add: pool_init_def)
next
  case (pool_next tr s a e s')
  from pool_next(1,2) have "pool_exec W N (tr @ [e]) s'" by (rule pool_exec.pool_next)
  from pool_exec_inv [OF W(2) N(1) this] have inv': "pool_inv W N (tr @ [e]) s'" .
  from pool_exec_inv [OF W(2) N(1) pool_next(1)] have pc: "pc_inv W N tr s"
    by (simp add: pool_inv_def)
  have shape: "(\<exists>w. mainpc s' = Spawning w) \<or> (\<exists>j. mainpc s' = Sending j)"
    using pool_next(2)
    by (cases rule: pool_step_kinds) (use pool_next(3) pc in \<open>auto simp: pc_inv_def\<close>)
  then show ?case
  proof
    assume "\<exists>w. mainpc s' = Spawning w"
    then show ?thesis by blast
  next
    assume "\<exists>j. mainpc s' = Sending j"
    then obtain j where j: "mainpc s' = Sending j" by blast
    from sending_bound [OF W(1) inv' j] N(2) have "j \<le> N" by simp
    with j show ?thesis by blast
  qed
qed

lemma pool_overfull_trace:
  assumes W: "0 \<le> W" "W < maxInt" and N: "N < maxInt" "2 * int chanCap + W < N"
    and ex: "pool_exec W N tr s"
  shows "mainpc s \<noteq> Returned \<and> collected tr = [] \<and> \<not> jobsClosed s
         \<and> JobsClosed \<notin> set tr \<and> Submitted N \<notin> set tr"
proof -
  from pool_exec_inv [OF W(2) N(1) ex] have pc: "pc_inv W N tr s" and it: "intake_inv N tr s"
    by (simp_all add: pool_inv_def)
  from pool_overfull [OF W N ex]
  consider w where "mainpc s = Spawning w" | j where "mainpc s = Sending j" "j \<le> N"
    by blast
  then show ?thesis
  proof cases
    case 1
    with pc it have "collected tr = []" "\<not> jobsClosed s" "filter intakeOp tr = []"
      by (simp_all add: pc_inv_def intake_inv_def)
    moreover from this(3) have "JobsClosed \<notin> set tr" "Submitted N \<notin> set tr"
      by (auto simp: filter_empty_conv)
    ultimately show ?thesis using 1 by simp
  next
    case 2
    with pc it have a: "collected tr = []" "\<not> jobsClosed s"
      and f: "filter intakeOp tr = map Submitted [1..j - 1]"
      by (simp_all add: pc_inv_def intake_inv_def)
    have "JobsClosed \<notin> set (filter intakeOp tr)" "Submitted N \<notin> set (filter intakeOp tr)"
      using 2(2) unfolding f by auto
    then have "JobsClosed \<notin> set tr" "Submitted N \<notin> set tr"
      by auto
    with a 2 show ?thesis by simp
  qed
qed

subsection \<open>Counts at the top of the integer range\<close>

lemma spawn_forever:
  assumes W: "\<not> W < maxInt" and ex: "pool_exec W N tr s"
  shows "\<exists>w. mainpc s = Spawning w \<and> w \<le> maxInt"
  using ex
proof (induction rule: pool_exec.induct)
  case pool_start
  show ?case by (simp add: pool_init_def maxInt_def)
next
  case (pool_next tr s a e s')
  from pool_next(2) show ?case
    by (cases rule: pool_step_kinds) (use pool_next(3) W in \<open>auto simp: wrap64_le\<close>)
qed

lemma send_forever:
  assumes N: "\<not> N < maxInt" and ex: "pool_exec W N tr s"
  shows "\<not> jobsClosed s \<and> ((\<exists>w. mainpc s = Spawning w) \<or> (\<exists>j. mainpc s = Sending j \<and> j \<le> maxInt))"
  using ex
proof (induction rule: pool_exec.induct)
  case pool_start
  show ?case by (simp add: pool_init_def maxInt_def)
next
  case (pool_next tr s a e s')
  from pool_next(2) show ?case
    by (cases rule: pool_step_kinds) (use pool_next(3) N in \<open>auto simp: wrap64_le one_le_maxInt\<close>)
qed

lemma returned_in_range:
  assumes "pool_exec W N tr s" "mainpc s = Returned"
  shows "W < maxInt \<and> N < maxInt"
  using assms spawn_forever [of W N tr s] send_forever [of N W tr s] by auto

lemma pool_returned_inv:
  assumes "pool_exec W N tr s" "mainpc s = Returned"
  shows "pool_inv W N tr s"
  using returned_in_range [OF assms] assms(1) by (auto intro: pool_exec_inv)

section \<open>The pipeline: steps and invariants\<close>

lemma delivered_snoc [simp]: "delivered (tr @ [e]) = delivered tr @ squareOf e"
  by (simp add: delivered_def)

lemma delivered_Nil [simp]: "delivered [] = []"
  by (simp add: delivered_def)

lemma pipeline_step_kinds:
  assumes "pipeline_step cnt g s = Some (e, s')"
  obtains
    (pass) i where "gen s = Generating i" "i \<le> cnt" "sq s = SqRanging" "e = Passed i"
      "s' = s\<lparr>gen := Generating (wrap64 (i + 1)), sq := SqHolding i\<rparr>"
  | (close) i where "gen s = Generating i" "\<not> i \<le> cnt" "e = NumbersClosed"
      "s' = s\<lparr>gen := GenClosed\<rparr>"
  | (deliver) num where "sq s = SqHolding num" "reader s = Reading"
      "e = PipelineResult (wrap64 (num * num))" "s' = s\<lparr>sq := SqRanging\<rparr>"
  | (drained) "sq s = SqRanging" "gen s = GenClosed" "e = SquaresClosed" "s' = s\<lparr>sq := SqClosed\<rparr>"
  | (finish) "reader s = Reading" "sq s = SqClosed" "e = PrintReturned" "s' = s\<lparr>reader := ReadDone\<rparr>"
  using assms
  by (cases g)
     (auto simp: generateNumbers_def squareNumbers_def printNumbers_def
        split: gstate.splits sstate.splits rstate.splits if_splits)

lemma pipeline_inv_init: "pipeline_inv cnt [] pipeline_init"
  by (simp add: pipeline_inv_def pipeline_init_def)

lemma pipeline_inv_step:
  assumes c: "cnt < maxInt" and inv: "pipeline_inv cnt tr s"
    and st: "pipeline_step cnt g s = Some (e, s')"
  shows "pipeline_inv cnt (tr @ [e]) s'"
  using st
proof (cases rule: pipeline_step_kinds)
  case (pass i)
  with inv c have "1 \<le> i" "wrap64 (i + 1) = i + 1"
    by (auto simp: pipeline_inv_def wrap64_succ)
  with pass inv show ?thesis
    by (simp add: pipeline_inv_def upto_snoc1)
next
  case (close i)
  with inv have "[1..i - 1] = [1..cnt]"
    by (auto simp: pipeline_inv_def intro: closing_upto)
  with close inv show ?thesis
    by (simp add: pipeline_inv_def)
next
  case (deliver num)
  with inv show ?thesis
    by (auto simp: pipeline_inv_def split: gstate.splits)
next
  case drained
  with inv show ?thesis
    by (auto simp: pipeline_inv_def)
next
  case finish
  with inv show ?thesis
    by (auto simp: pipeline_inv_def split: gstate.splits)
qed

lemma pipeline_exec_inv:
  assumes "cnt < maxInt" "pipeline_exec cnt tr s"
  shows "pipeline_inv cnt tr s"
  using assms(2)
proof (induction rule: pipeline_exec.induct)
  case pipeline_start
  show ?case by (rule pipeline_inv_init)
next
  case (pipeline_next tr s g e s')
  with assms(1) show ?case by (blast intro: pipeline_inv_step)
qed

lemma pipeline_potential_step:
  assumes c: "cnt < maxInt" and inv: "pipeline_inv cnt tr s"
    and st: "pipeline_step cnt g s = Some (e, s')"
  shows "Suc (pipeline_potential cnt s') = pipeline_potential cnt s"
  using st
proof (cases rule: pipeline_step_kinds)
  case (pass i)
  with inv c have "1 \<le> i" "wrap64 (i + 1) = i + 1"
    by (auto simp: pipeline_inv_def wrap64_succ)
  with pass show ?thesis
    by (simp add: pipeline_potential_def nat_diff_distrib)
qed (auto simp: pipeline_potential_def)

lemma pipeline_exec_length:
  assumes "cnt < maxInt" "pipeline_exec cnt tr s"
  shows "length tr + pipeline_potential cnt s = 2 * nat cnt + 3"
  using assms(2)
proof (induction rule: pipeline_exec.induct)
  case pipeline_start
  show ?case by (simp add: pipeline_potential_def pipeline_init_def)
next
  case (pipeline_next tr s g e s')
  from pipeline_potential_step [OF assms(1) pipeline_exec_inv [OF assms(1) pipeline_next(1)]
      pipeline_next(2)] pipeline_next(3)
  show ?case by simp
qed

lemma pipeline_progress:
  assumes inv: "pipeline_inv cnt tr s" and bl: "pipeline_blocked cnt s"
  shows "reader s = ReadDone \<and> sq s = SqClosed \<and> gen s = GenClosed"
proof -
  from bl have g: "generateNumbers cnt s = None" and q: "squareNumbers s = None"
    and p: "printNumbers s = None"
    by (simp_all add: pipeline_blocked_def)
  show ?thesis
  proof (cases "sq s")
    case SqRanging
    with g q show ?thesis
      by (auto simp: generateNumbers_def squareNumbers_def split: gstate.splits if_splits)
  next
    case (SqHolding num)
    with q inv show ?thesis
      by (cases "reader s") (auto simp: squareNumbers_def pipeline_inv_def split: if_splits)
  next
    case SqClosed
    with p inv show ?thesis
      by (cases "reader s") (auto simp: printNumbers_def pipeline_inv_def split: gstate.splits)
  qed
qed

lemma pipeline_not_blocked_step:
  assumes "\<not> pipeline_blocked cnt s"
  shows "\<exists>g e s'. pipeline_step cnt g s = Some (e, s')"
proof -
  from assms consider "generateNumbers cnt s \<noteq> None" | "squareNumbers s \<noteq> None"
    | "printNumbers s \<noteq> None"
    by (auto simp: pipeline_blocked_def)
  then show ?thesis
  proof cases
    case 1
    then obtain e s' where "pipeline_step cnt Generator s = Some (e, s')" by auto
    then show ?thesis by blast
  next
    case 2
    then obtain e s' where "pipeline_step cnt Squarer s = Some (e, s')" by auto
    then show ?thesis by blast
  next
    case 3
    then obtain e s' where "pipeline_step cnt Printer s = Some (e, s')" by auto
    then show ?thesis by blast
  qed
qed

lemma pipeline_completes:
  assumes c: "cnt < maxInt" and ex: "pipeline_exec cnt tr s"
  shows "\<exists>tr' s'. pipeline_exec cnt (tr @ tr') s' \<and> pipeline_blocked cnt s'"
  using ex
proof (induction "pipeline_potential cnt s" arbitrary: tr s rule: less_induct)
  case less
  show ?case
  proof (cases "pipeline_blocked cnt s")
    case True
    with less.prems have "pipeline_exec cnt (tr @ []) s \<and> pipeline_blocked cnt s" by simp
    then show ?thesis by blast
  next
    case False
    from pipeline_not_blocked_step [OF this] obtain g e s1
      where st: "pipeline_step cnt g s = Some (e, s1)"
      by blast
    from pipeline_potential_step [OF c pipeline_exec_inv [OF c less.prems] st]
    have "pipeline_potential cnt s1 < pipeline_potential cnt s"
      by simp
    moreover from less.prems st have "pipeline_exec cnt (tr @ [e]) s1"
      by (rule pipeline_next)
    ultimately obtain tr' s' where "pipeline_exec cnt ((tr @ [e]) @ tr') s'"
      "pipeline_blocked cnt s'"
      using less.hyps by blast
    then have "pipeline_exec cnt (tr @ (e # tr')) s' \<and> pipeline_blocked cnt s'" by simp
    then show ?thesis by blast
  qed
qed

lemma pipeline_done_output:
  assumes inv: "pipeline_inv cnt tr s" and d: "reader s = ReadDone"
  shows "delivered tr = map (\<lambda>n. wrap64 (n * n)) [1..cnt]"
    and "filter numbersOp tr = map Passed [1..cnt] @ [NumbersClosed]"
  using assms by (auto simp: pipeline_inv_def split: gstate.splits)

lemma square_fits:
  assumes "0 \<le> n" "n \<le> 3037000499"
  shows "wrap64 (n * n) = n * n"
proof (rule wrap64_id)
  have "- (2 ^ 63) \<le> (0::int)" by simp
  also have "0 \<le> n * n" by simp
  finally show "- (2 ^ 63) \<le> n * n" .
  from assms have "n * n \<le> 3037000499 * 3037000499"
    by (intro mult_mono) simp_all
  then show "n * n < 2 ^ 63" by simp
qed

lemma square_wraps: "wrap64 (3037000500 * 3037000500) = - 9223372036709301616"
  by (simp add: wrap64_def)

lemma pipeline_schedule_exec:
  assumes "pipeline_schedule cnt gs (tr, s) = Some (tr', s')" "pipeline_exec cnt tr s"
  shows "pipeline_exec cnt tr' s'"
  using assms
proof (induction gs arbitrary: tr s)
  case Nil
  then show ?case by simp
next
  case (Cons g gs)
  from Cons.prems(1) obtain e s1 where st: "pipeline_step cnt g s = Some (e, s1)"
    and rest: "pipeline_schedule cnt gs (tr @ [e], s1) = Some (tr', s')"
    by (auto split: option.splits)
  from Cons.prems(2) st have "pipeline_exec cnt (tr @ [e]) s1" by (rule pipeline_next)
  with rest show ?case by (rule Cons.IH)
qed

section \<open>What was sent is what arrived\<close>

lemma produced_snoc [simp]: "produced (tr @ [e]) = produced tr @ sentOf e"
  by (simp add: produced_def)

lemma produced_Nil [simp]: "produced [] = []"
  by (simp add: produced_def)

lemma source_inv_step:
  assumes N: "N < maxInt" and inv: "source_inv N tr s"
    and st: "pool_step W N a s = Some (e, s')"
  shows "source_inv N (tr @ [e]) s'"
  using st
proof (cases rule: pool_step_kinds)
  case (send j)
  with inv N have "1 \<le> j" "wrap64 (j + 1) = j + 1"
    by (auto simp: source_inv_def wrap64_succ)
  with send inv show ?thesis
    by (simp add: source_inv_def upto_snoc1)
next
  case (close j)
  with inv have "[1..j - 1] = [1..N]"
    by (auto simp: source_inv_def intro: closing_upto)
  with close inv show ?thesis
    by (simp add: source_inv_def)
next
  case (panic j)
  with inv show ?thesis by (simp add: source_inv_def)
next
  case (collect r x xs)
  with inv show ?thesis by (simp add: source_inv_def)
next
  case (finish r)
  with inv show ?thesis by (simp add: source_inv_def)
next
  case (take k wid job rest)
  with inv show ?thesis
    by (auto simp: source_inv_def split: mstate.splits)
next
  case (leave k wid)
  with inv show ?thesis
    by (auto simp: source_inv_def split: mstate.splits)
next
  case (produce k wid job)
  with inv show ?thesis
    by (auto simp: source_inv_def split: mstate.splits)
qed (use inv in \<open>auto simp: source_inv_def\<close>)

lemma pool_exec_source:
  assumes "N < maxInt" "pool_exec W N tr s"
  shows "source_inv N tr s"
  using assms(2)
proof (induction rule: pool_exec.induct)
  case pool_start
  show ?case by (simp add: source_inv_def pool_init_def)
next
  case (pool_next tr s a e s')
  with assms(1) show ?case by (blast intro: source_inv_step)
qed




lemma pool_step_intake:
  assumes "pool_step W N a s = Some (e, s')"
  shows "(\<forall>j. e = Submitted j \<longrightarrow> a = 0 \<and> jobs s' = jobs s @ [j] \<and> jobsClosed s' = jobsClosed s)
       \<and> (e = JobsClosed \<longrightarrow> a = 0 \<and> \<not> jobsClosed s \<and> jobsClosed s' \<and> jobs s' = jobs s)
       \<and> (\<not> intakeOp e \<longrightarrow> jobsClosed s' = jobsClosed s \<and> suffix (jobs s') (jobs s))"
  using assms
  by (cases rule: pool_step_kinds) (auto simp: suffix_def)


lemma handover_inv_step:
  assumes c: "cnt < maxInt" and pinv: "pipeline_inv cnt tr s" and inv: "handover_inv cnt s"
    and st: "pipeline_step cnt g s = Some (e, s')"
  shows "handover_inv cnt s'"
  using st
proof (cases rule: pipeline_step_kinds)
  case (pass i)
  with pinv c have "1 \<le> i" "wrap64 (i + 1) = i + 1"
    by (auto simp: pipeline_inv_def wrap64_succ)
  with pass show ?thesis
    by (simp add: handover_inv_def)
next
  case (close i)
  with pinv have "[1..i - 1] = [1..cnt]"
    by (auto simp: pipeline_inv_def intro: closing_upto)
  with close inv show ?thesis
    by (auto simp: handover_inv_def)
qed (use inv in \<open>auto simp: handover_inv_def\<close>)

lemma pipeline_exec_handover:
  assumes "cnt < maxInt" "pipeline_exec cnt tr s"
  shows "handover_inv cnt s"
  using assms(2)
proof (induction rule: pipeline_exec.induct)
  case pipeline_start
  show ?case by (simp add: handover_inv_def pipeline_init_def)
next
  case (pipeline_next tr s g e s')
  from handover_inv_step [OF assms(1) pipeline_exec_inv [OF assms(1) pipeline_next(1)]
      pipeline_next(3) pipeline_next(2)]
  show ?case .
qed

lemma upto_from_one_inj:
  assumes "[1..n] = [1..m]" "1 \<le> m"
  shows "n = m"
proof -
  from assms(1) have "length [1..n] = length [1..m]" by (simp only:)
  then have "nat n = nat m" by simp
  with assms(2) show ?thesis by linarith
qed

lemma pipeline_step_numbers:
  assumes "pipeline_step cnt g s = Some (e, s')"
  shows "(\<forall>i. e = Passed i \<longrightarrow>
            g = Generator \<and> sq s = SqRanging \<and> sq s' = SqHolding i \<and> gen s \<noteq> GenClosed)
       \<and> (e = NumbersClosed \<longrightarrow>
            g = Generator \<and> gen s \<noteq> GenClosed \<and> gen s' = GenClosed \<and> sq s' = sq s)
       \<and> (\<not> numbersOp e \<longrightarrow> g \<noteq> Generator \<and> gen s' = gen s \<and> (\<forall>i. sq s' \<noteq> SqHolding i))"
  using assms
  by (cases g)
     (auto simp: generateNumbers_def squareNumbers_def printNumbers_def
        split: gstate.splits sstate.splits rstate.splits if_splits)

section \<open>The worker pool: results\<close>

lemma pool_exec_exited:
  assumes "pool_exec W N tr s"
  shows "exited_inv s"
  using assms
proof (induction rule: pool_exec.induct)
  case pool_start
  show ?case by (simp add: exited_inv_def pool_init_def)
next
  case (pool_next tr s a e s')
  then show ?case by (blast intro: exited_inv_step)
qed

lemma pool_can_return:
  assumes W: "1 \<le> W" "W < maxInt" and N: "N < maxInt" "N \<le> 200 + W"
    and ex: "pool_exec W N tr s"
  shows "\<exists>tr' s'. pool_exec W N (tr @ tr') s' \<and> pool_blocked W N s' \<and> mainpc s' = Returned
           \<and> jobs s' = [] \<and> results s' = [] \<and> (\<forall>x \<in> set (workers s'). snd x = Exited)"
proof -
  from pool_completes [OF W(2) N(1) ex] obtain tr' s'
    where ex': "pool_exec W N (tr @ tr') s'" and bl: "pool_blocked W N s'"
    by blast
  from N(2) have cap: "N \<le> 2 * int chanCap + W" by (simp add: chanCap_def)
  from pool_quiescent [OF W N(1) cap pool_exec_inv [OF W(2) N(1) ex'] bl] ex' bl
  show ?thesis by blast
qed

lemma schedule_run:
  assumes "schedule W N as ([], pool_init) = Some (tr, s)"
  shows "pool_exec W N tr s"
  using assms pool_start by (rule schedule_exec)

lemma run_1_2:
  "schedule 1 2 [0, 0, 0, 0, 0, 1, 1, 1, 1, 0, 0, 0, 1] ([], pool_init)
   = Some ([Started 1, AllStarted, Submitted 1, Submitted 2, JobsClosed, Processing 1 1,
            Produced 1 2, Processing 1 2, Produced 1 4, Result 2, Result 4, Finished, WorkerDone 1],
           \<lparr>jobs = [], jobsClosed = True, results = [], workers = [(1, Exited)],
            mainpc = Returned\<rparr>)"
  by (simp add: pool_step_def demonstrateWorkerPool_def worker_def pool_init_def chanCap_def
      transform_def wrap64_def)

text \<open>
  C1, within the capacity of the channels. For every worker count \<open>W \<ge> 1\<close> and every job
  count \<open>N \<le> 200 + W\<close> (both below \<open>maxInt\<close>), every run of the pool can be continued
  until main returns, and in every run in which main has returned it has collected
  exactly \<open>N\<close> results (\<open>nat N\<close>, which is 0 for a negative \<open>N\<close>), the multiset of
  results is the image of the jobs \<open>1..N\<close> under the transformation, and the jobs the
  workers received are exactly \<open>1..N\<close>, each once: none is processed twice and none is
  lost.
\<close>

theorem pool_results_within_capacity:
  assumes "1 \<le> W" "W < maxInt" "N < maxInt" "N \<le> 200 + W"
  shows "(\<forall>tr s. pool_exec W N tr s \<longrightarrow>
            (\<exists>tr' s'. pool_exec W N (tr @ tr') s' \<and> mainpc s' = Returned))
       \<and> (\<forall>tr s. pool_exec W N tr s \<and> mainpc s = Returned \<longrightarrow>
            length (collected tr) = nat N
          \<and> mset (collected tr) = image_mset transform (mset [1..N])
          \<and> mset (processed tr) = mset [1..N]
          \<and> distinct (processed tr))"
proof (intro conjI allI impI)
  fix tr s assume "pool_exec W N tr s"
  from pool_can_return [OF assms this]
  show "\<exists>tr' s'. pool_exec W N (tr @ tr') s' \<and> mainpc s' = Returned"
    by blast
next
  fix tr s assume a: "pool_exec W N tr s \<and> mainpc s = Returned"
  then have inv: "pool_inv W N tr s" and ret: "mainpc s = Returned"
    using assms by (auto intro: pool_exec_inv)
  from pool_returned_results(1) [OF inv ret] show "length (collected tr) = nat N" .
  from pool_returned_results(2) [OF inv ret]
  show "mset (collected tr) = image_mset transform (mset [1..N])" .
  from pool_returned_results(3) [OF inv ret] show m: "mset (processed tr) = mset [1..N]" .
  have "distinct [1..N]" by simp
  with m show "distinct (processed tr)" by (metis mset_eq_imp_distinct_iff)
qed

text \<open>One worker and two jobs: a complete run, and what the theorem says of it.\<close>

theorem pool_results_within_capacity_witness:
  "pool_exec 1 2 [Started 1, AllStarted, Submitted 1, Submitted 2, JobsClosed, Processing 1 1,
            Produced 1 2, Processing 1 2, Produced 1 4, Result 2, Result 4, Finished, WorkerDone 1]
           \<lparr>jobs = [], jobsClosed = True, results = [], workers = [(1, Exited)],
            mainpc = Returned\<rparr>
   \<and> mset (collected [Started 1, AllStarted, Submitted 1, Submitted 2, JobsClosed, Processing 1 1,
            Produced 1 2, Processing 1 2, Produced 1 4, Result 2, Result 4, Finished, WorkerDone 1])
       = image_mset transform (mset [1..2])"
proof -
  let ?tr = "[Started 1, AllStarted, Submitted 1, Submitted 2, JobsClosed, Processing 1 1,
            Produced 1 2, Processing 1 2, Produced 1 4, Result 2, Result 4, Finished, WorkerDone 1]"
  let ?s = "\<lparr>jobs = [], jobsClosed = True, results = [], workers = [(1, Exited)],
            mainpc = Returned\<rparr>"
  have ex: "pool_exec 1 2 ?tr ?s" by (rule schedule_run [OF run_1_2])
  have "(1::int) \<le> 1" "(1::int) < maxInt" "(2::int) < maxInt" "(2::int) \<le> 200 + 1"
    by (simp_all add: maxInt_def)
  from pool_results_within_capacity [OF this]
  have "pool_exec 1 2 ?tr ?s \<and> mainpc ?s = Returned
        \<longrightarrow> mset (collected ?tr) = image_mset transform (mset [1..2])"
    by blast
  with ex show ?thesis by simp
qed

text \<open>
  With 3 workers and 204 jobs no run ever collects a result, and main never returns:
  main sends every job before it receives any result, and the two channels and the three
  workers hold at most 203 jobs between them.
\<close>

theorem pool_204_jobs_3_workers_stuck:
  "\<not> (\<exists>tr s. pool_exec 3 204 tr s \<and> (mainpc s = Returned \<or> collected tr \<noteq> []))"
proof
  assume "\<exists>tr s. pool_exec 3 204 tr s \<and> (mainpc s = Returned \<or> collected tr \<noteq> [])"
  then obtain tr s where ex: "pool_exec 3 204 tr s"
    and bad: "mainpc s = Returned \<or> collected tr \<noteq> []"
    by blast
  have "(0::int) \<le> 3" "(3::int) < maxInt" "(204::int) < maxInt" "2 * int chanCap + 3 < 204"
    by (simp_all add: maxInt_def chanCap_def)
  from pool_overfull_trace [OF this ex] bad show False by simp
qed

lemma run_3_9:
  "schedule 3 9 [0, 0, 0, 0, 0, 0, 0, 0, 0, 0, 0, 0, 0, 0, 1, 2, 3, 2, 1, 3, 1, 2, 3, 3, 2, 1,
      1, 1, 2, 2, 3, 3, 1, 2, 3, 0, 0, 0, 0, 0, 0, 0, 0, 0, 0] ([], pool_init)
   = Some ([Started 1, Started 2, Started 3, AllStarted, Submitted 1, Submitted 2, Submitted 3,
            Submitted 4, Submitted 5, Submitted 6, Submitted 7, Submitted 8, Submitted 9,
            JobsClosed, Processing 1 1, Processing 2 2, Processing 3 3, Produced 2 4,
            Produced 1 2, Produced 3 6, Processing 1 4, Processing 2 5, Processing 3 6,
            Produced 3 12, Produced 2 10, Produced 1 8, Processing 1 7, Produced 1 14,
            Processing 2 8, Produced 2 16, Processing 3 9, Produced 3 18, WorkerDone 1,
            WorkerDone 2, WorkerDone 3, Result 4, Result 2, Result 6, Result 12, Result 10,
            Result 8, Result 14, Result 16, Result 18, Finished],
           \<lparr>jobs = [], jobsClosed = True, results = [],
            workers = [(1, Exited), (2, Exited), (3, Exited)], mainpc = Returned\<rparr>)"
  by (simp add: pool_step_def demonstrateWorkerPool_def worker_def pool_init_def chanCap_def
      transform_def wrap64_def)

lemma doubled_1_9: "image_mset transform (mset [1..9]) = {#2, 4, 6, 8, 10, 12, 14, 16, 18#}"
  by (simp add: upto.simps transform_def wrap64_def)

text \<open>
  C2. With 9 jobs valued 1..9, 3 workers and the transformation \<open>job * 2\<close>: every run
  has at most 45 steps and can be continued until main returns; a run can only come to a
  halt after main has returned; and whenever main has returned, the set of collected
  results is \<open>{2, 4, 6, 8, 10, 12, 14, 16, 18}\<close>, their sum is 90 and there are 9 of
  them.
\<close>

theorem pool_nine_jobs_three_workers:
  "(\<forall>tr s. pool_exec 3 9 tr s \<longrightarrow>
        length tr \<le> 45
        \<and> (\<exists>tr' s'. pool_exec 3 9 (tr @ tr') s' \<and> mainpc s' = Returned))
   \<and> (\<forall>tr s. pool_exec 3 9 tr s \<and> pool_blocked 3 9 s \<longrightarrow> mainpc s = Returned)
   \<and> (\<forall>tr s. pool_exec 3 9 tr s \<and> mainpc s = Returned \<longrightarrow>
        set (collected tr) = {2, 4, 6, 8, 10, 12, 14, 16, 18}
        \<and> sum_list (collected tr) = 90
        \<and> length (collected tr) = 9)"
proof -
  have b: "(1::int) \<le> 3" "(3::int) < maxInt" "(9::int) < maxInt"
    by (simp_all add: maxInt_def)
  have cap: "(9::int) \<le> 2 * int chanCap + 3" "(9::int) \<le> 200 + 3"
    by (simp_all add: chanCap_def)
  have one: "length tr \<le> 45 \<and> (\<exists>tr' s'. pool_exec 3 9 (tr @ tr') s' \<and> mainpc s' = Returned)"
    if "pool_exec 3 9 tr s" for tr s
  proof
    from pool_exec_length [OF b(2,3) that] show "length tr \<le> 45" by simp
    from pool_can_return [OF b cap(2) that]
    show "\<exists>tr' s'. pool_exec 3 9 (tr @ tr') s' \<and> mainpc s' = Returned" by blast
  qed
  have two: "mainpc s = Returned" if "pool_exec 3 9 tr s \<and> pool_blocked 3 9 s" for tr s
    using that main_progress [OF b cap(1) pool_exec_inv [OF b(2,3)]] by blast
  have three: "set (collected tr) = {2, 4, 6, 8, 10, 12, 14, 16, 18}
        \<and> sum_list (collected tr) = 90 \<and> length (collected tr) = 9"
    if "pool_exec 3 9 tr s \<and> mainpc s = Returned" for tr s
  proof -
    from that have inv: "pool_inv 3 9 tr s" and ret: "mainpc s = Returned"
      using b by (auto intro: pool_exec_inv)
    from pool_returned_results(2) [OF inv ret]
    have m: "mset (collected tr) = {#2, 4, 6, 8, 10, 12, 14, 16, 18#}"
      by (simp only: doubled_1_9)
    have "set (collected tr) = set_mset (mset (collected tr))" by simp
    also have "\<dots> = {2, 4, 6, 8, 10, 12, 14, 16, 18}" unfolding m by simp
    finally have s: "set (collected tr) = {2, 4, 6, 8, 10, 12, 14, 16, 18}" .
    have "sum_list (collected tr) = sum_mset (mset (collected tr))"
      by (simp add: sum_mset_sum_list)
    also have "\<dots> = 90" unfolding m by simp
    finally have t: "sum_list (collected tr) = 90" .
    from pool_returned_results(1) [OF inv ret] have "length (collected tr) = 9" by simp
    with s t show ?thesis by simp
  qed
  from one two three show ?thesis by blast
qed

text \<open>A complete run of the source's own configuration, with the results out of order.\<close>

theorem pool_nine_jobs_three_workers_witness:
  "pool_exec 3 9
     [Started 1, Started 2, Started 3, AllStarted, Submitted 1, Submitted 2, Submitted 3,
      Submitted 4, Submitted 5, Submitted 6, Submitted 7, Submitted 8, Submitted 9,
      JobsClosed, Processing 1 1, Processing 2 2, Processing 3 3, Produced 2 4,
      Produced 1 2, Produced 3 6, Processing 1 4, Processing 2 5, Processing 3 6,
      Produced 3 12, Produced 2 10, Produced 1 8, Processing 1 7, Produced 1 14,
      Processing 2 8, Produced 2 16, Processing 3 9, Produced 3 18, WorkerDone 1,
      WorkerDone 2, WorkerDone 3, Result 4, Result 2, Result 6, Result 12, Result 10,
      Result 8, Result 14, Result 16, Result 18, Finished]
     \<lparr>jobs = [], jobsClosed = True, results = [],
      workers = [(1, Exited), (2, Exited), (3, Exited)], mainpc = Returned\<rparr>
   \<and> set [4, 2, 6, 12, 10, 8, 14, 16, 18] = {2, 4, 6, 8, 10, 12, 14, 16, 18 :: int}
   \<and> sum_list [4, 2, 6, 12, 10, 8, 14, 16, 18] = (90 :: int)"
proof -
  let ?tr = "[Started 1, Started 2, Started 3, AllStarted, Submitted 1, Submitted 2, Submitted 3,
      Submitted 4, Submitted 5, Submitted 6, Submitted 7, Submitted 8, Submitted 9,
      JobsClosed, Processing 1 1, Processing 2 2, Processing 3 3, Produced 2 4,
      Produced 1 2, Produced 3 6, Processing 1 4, Processing 2 5, Processing 3 6,
      Produced 3 12, Produced 2 10, Produced 1 8, Processing 1 7, Produced 1 14,
      Processing 2 8, Produced 2 16, Processing 3 9, Produced 3 18, WorkerDone 1,
      WorkerDone 2, WorkerDone 3, Result 4, Result 2, Result 6, Result 12, Result 10,
      Result 8, Result 14, Result 16, Result 18, Finished]"
  let ?s = "\<lparr>jobs = [], jobsClosed = True, results = [],
      workers = [(1, Exited), (2, Exited), (3, Exited)], mainpc = Returned\<rparr>"
  have ex: "pool_exec 3 9 ?tr ?s" by (rule schedule_run [OF run_3_9])
  have c: "collected ?tr = [4, 2, 6, 12, 10, 8, 14, 16, 18]" by (simp add: collected_def)
  from pool_nine_jobs_three_workers
  have "pool_exec 3 9 ?tr ?s \<and> mainpc ?s = Returned \<longrightarrow>
        set (collected ?tr) = {2, 4, 6, 8, 10, 12, 14, 16, 18}
        \<and> sum_list (collected ?tr) = 90"
    by blast
  with ex have "set (collected ?tr) = {2, 4, 6, 8, 10, 12, 14, 16, 18}
        \<and> sum_list (collected ?tr) = 90"
    by simp
  with ex show ?thesis unfolding c by blast
qed

lemma worker_frame:
  assumes "worker k s = Some (e, s')"
  shows "jobsClosed s' = jobsClosed s \<and> suffix (jobs s') (jobs s) \<and> mainpc s' = mainpc s
         \<and> \<not> intakeOp e
         \<and> ((\<exists>wid. e = WorkerDone wid)
              \<longleftrightarrow> snd (workers s ! k) = Ranging \<and> jobs s = [] \<and> jobsClosed s)
         \<and> (snd (workers s' ! k) = Exited
              \<longleftrightarrow> snd (workers s ! k) = Ranging \<and> jobs s = [] \<and> jobsClosed s)"
  using assms
  by (cases rule: worker_cases) (auto simp: suffix_def)

lemma generated_prefix:
  assumes "pipeline_inv cnt tr s"
  shows "\<exists>n. generated cnt (gen s) = [1..n] \<and> n \<le> max 0 cnt
             \<and> (gen s = GenClosed \<longrightarrow> [1..n] = [1..cnt])"
proof (cases "gen s")
  case (Generating i)
  with assms have "generated cnt (gen s) = [1..i - 1] \<and> i - 1 \<le> max 0 cnt
      \<and> (gen s = GenClosed \<longrightarrow> [1..i - 1] = [1..cnt])"
    by (auto simp: pipeline_inv_def)
  then show ?thesis by blast
next
  case GenClosed
  then have "generated cnt (gen s) = [1..max 0 cnt] \<and> max 0 cnt \<le> max 0 cnt
      \<and> (gen s = GenClosed \<longrightarrow> [1..max 0 cnt] = [1..cnt])"
    by (auto simp: max_def)
  then show ?thesis by blast
qed

text \<open>
  C4. In every state of every run of the pool, for every worker: if it has returned, the
  intake channel is closed and empty (and the worker takes no further step); if it stands
  at its \<open>range\<close> loop and the channel is closed and empty, its step is to return; if the
  channel is empty and still open it blocks instead. Any step it takes is its return
  exactly when it stands at the loop with the channel closed and empty; and no step of
  it changes whether the channel is closed, adds to the channel (the contents after the
  step are a suffix of those before), or is a send or close on it. Within the capacity
  of the channels every run can be continued until all workers have returned.
\<close>

theorem worker_terminates_iff_closed_and_drained:
  assumes "pool_exec W N tr s" "k < length (workers s)"
  shows "(snd (workers s ! k) = Exited \<longrightarrow> jobsClosed s \<and> jobs s = [] \<and> worker k s = None)
       \<and> (snd (workers s ! k) = Ranging \<and> jobsClosed s \<and> jobs s = [] \<longrightarrow>
            worker k s = Some (WorkerDone (fst (workers s ! k)),
                               s\<lparr>workers := (workers s)[k := (fst (workers s ! k), Exited)]\<rparr>))
       \<and> (snd (workers s ! k) = Ranging \<and> \<not> jobsClosed s \<and> jobs s = [] \<longrightarrow> worker k s = None)
       \<and> (\<forall>e s'. worker k s = Some (e, s') \<longrightarrow>
            ((\<exists>wid. e = WorkerDone wid)
               \<longleftrightarrow> snd (workers s ! k) = Ranging \<and> jobsClosed s \<and> jobs s = [])
            \<and> (snd (workers s' ! k) = Exited
               \<longleftrightarrow> snd (workers s ! k) = Ranging \<and> jobsClosed s \<and> jobs s = [])
            \<and> jobsClosed s' = jobsClosed s \<and> suffix (jobs s') (jobs s) \<and> \<not> intakeOp e)
       \<and> (1 \<le> W \<and> W < maxInt \<and> N < maxInt \<and> N \<le> 200 + W \<longrightarrow>
            (\<exists>tr' s'. pool_exec W N (tr @ tr') s' \<and> (\<forall>x \<in> set (workers s'). snd x = Exited)))"
proof (intro conjI allI impI)
  assume "1 \<le> W \<and> W < maxInt \<and> N < maxInt \<and> N \<le> 200 + W"
  then have b: "1 \<le> W" "W < maxInt" "N < maxInt" "N \<le> 200 + W" by simp_all
  from pool_can_return [OF b assms(1)]
  show "\<exists>tr' s'. pool_exec W N (tr @ tr') s' \<and> (\<forall>x \<in> set (workers s'). snd x = Exited)"
    by blast
next
  assume e: "snd (workers s ! k) = Exited"
  obtain wid where w: "workers s ! k = (wid, Exited)"
    using e by (cases "workers s ! k") auto
  with assms(2) have "(wid, Exited) \<in> set (workers s)"
    by (metis nth_mem)
  with pool_exec_exited [OF assms(1)] show "jobsClosed s" "jobs s = []"
    by (auto simp: exited_inv_def)
  from w assms(2) show "worker k s = None" by (simp add: worker_def)
next
  assume a: "snd (workers s ! k) = Ranging \<and> jobsClosed s \<and> jobs s = []"
  then have "workers s ! k = (fst (workers s ! k), Ranging)"
    by (cases "workers s ! k") auto
  from worker_leave_enabled [OF assms(2) this] a
  show "worker k s = Some (WorkerDone (fst (workers s ! k)),
                               s\<lparr>workers := (workers s)[k := (fst (workers s ! k), Exited)]\<rparr>)"
    by simp
next
  assume a: "snd (workers s ! k) = Ranging \<and> \<not> jobsClosed s \<and> jobs s = []"
  then show "worker k s = None"
    by (cases "workers s ! k") (auto simp: worker_def)
next
  fix e s' assume st: "worker k s = Some (e, s')"
  from worker_frame [OF st]
  show "(\<exists>wid. e = WorkerDone wid)
               \<longleftrightarrow> snd (workers s ! k) = Ranging \<and> jobsClosed s \<and> jobs s = []"
    "snd (workers s' ! k) = Exited
               \<longleftrightarrow> snd (workers s ! k) = Ranging \<and> jobsClosed s \<and> jobs s = []"
    "jobsClosed s' = jobsClosed s" "suffix (jobs s') (jobs s)" "\<not> intakeOp e"
    by auto
qed

lemma run_1_0:
  "schedule 1 0 [0, 0, 0] ([], pool_init)
   = Some ([Started 1, AllStarted, JobsClosed],
           \<lparr>jobs = [], jobsClosed = True, results = [], workers = [(1, Ranging)],
            mainpc = Collecting 1\<rparr>)"
  by (simp add: pool_step_def demonstrateWorkerPool_def worker_def pool_init_def chanCap_def
      transform_def wrap64_def)

text \<open>One worker, no jobs: after main has closed the channel the worker's step is its return.\<close>

theorem worker_terminates_iff_closed_and_drained_witness:
  "pool_exec 1 0 [Started 1, AllStarted, JobsClosed]
     \<lparr>jobs = [], jobsClosed = True, results = [], workers = [(1, Ranging)],
      mainpc = Collecting 1\<rparr>
   \<and> worker 0 \<lparr>jobs = [], jobsClosed = True, results = [], workers = [(1, Ranging)],
                mainpc = Collecting 1\<rparr>
       = Some (WorkerDone 1, \<lparr>jobs = [], jobsClosed = True, results = [],
                               workers = [(1, Exited)], mainpc = Collecting 1\<rparr>)"
proof -
  let ?s = "\<lparr>jobs = [], jobsClosed = True, results = [], workers = [(1, Ranging)],
      mainpc = Collecting 1\<rparr>"
  have ex: "pool_exec 1 0 [Started 1, AllStarted, JobsClosed] ?s"
    by (rule schedule_run [OF run_1_0])
  have k: "0 < length (workers ?s)" by simp
  from worker_terminates_iff_closed_and_drained [OF ex k]
  have "snd (workers ?s ! 0) = Ranging \<and> jobsClosed ?s \<and> jobs ?s = [] \<longrightarrow>
            worker 0 ?s = Some (WorkerDone (fst (workers ?s ! 0)),
                               ?s\<lparr>workers := (workers ?s)[0 := (fst (workers ?s ! 0), Exited)]\<rparr>)"
    by blast
  then have "worker 0 ?s = Some (WorkerDone 1, \<lparr>jobs = [], jobsClosed = True, results = [],
                               workers = [(1, Exited)], mainpc = Collecting 1\<rparr>)"
    by simp
  with ex show ?thesis by (rule conjI)
qed

text \<open>
  C7, within the capacity of the channels. For \<open>W \<ge> 1\<close> and \<open>N \<le> 200 + W\<close> (both below
  \<open>maxInt\<close>): every run has at most \<open>2 W + 4 N + 3\<close> steps; as long as main has not
  returned some goroutine has a step (no deadlock); every run can be continued to a state
  where main has returned, every worker has returned and nothing is left to do. When main
  has returned it has collected \<open>N\<close> results: none for \<open>N = 0\<close>, and for \<open>W = 1\<close> the
  results arrive in the order of the jobs.
\<close>

theorem pool_terminates_within_capacity:
  assumes "1 \<le> W" "W < maxInt" "N < maxInt" "N \<le> 200 + W" "pool_exec W N tr s"
  shows "length tr \<le> 2 * nat W + 4 * nat N + 3
       \<and> (mainpc s \<noteq> Returned \<longrightarrow> (\<exists>a e s'. pool_step W N a s = Some (e, s')))
       \<and> (\<exists>tr' s'. pool_exec W N (tr @ tr') s' \<and> mainpc s' = Returned
             \<and> (\<forall>a. pool_step W N a s' = None) \<and> (\<forall>x \<in> set (workers s'). snd x = Exited))
       \<and> (mainpc s = Returned \<longrightarrow>
            length (collected tr) = nat N
            \<and> (N = 0 \<longrightarrow> collected tr = [])
            \<and> (W = 1 \<longrightarrow> collected tr = map transform [1..N]))"
proof (intro conjI impI)
  from pool_exec_length [OF assms(2,3,5)] show "length tr \<le> 2 * nat W + 4 * nat N + 3"
    by simp
next
  assume nr: "mainpc s \<noteq> Returned"
  from assms(4) have cap: "N \<le> 2 * int chanCap + W" by (simp add: chanCap_def)
  from main_progress [OF assms(1,2,3) cap pool_exec_inv [OF assms(2,3,5)]] nr
  have "\<not> pool_blocked W N s" by blast
  then show "\<exists>a e s'. pool_step W N a s = Some (e, s')" by (rule not_blocked_step)
next
  from pool_can_return [OF assms] obtain tr' s'
    where "pool_exec W N (tr @ tr') s'" "pool_blocked W N s'" "mainpc s' = Returned"
      "\<forall>x \<in> set (workers s'). snd x = Exited"
    by blast
  moreover from this(2) have "\<forall>a. pool_step W N a s' = None"
    by (simp add: blocked_no_step)
  ultimately show "\<exists>tr' s'. pool_exec W N (tr @ tr') s' \<and> mainpc s' = Returned
             \<and> (\<forall>a. pool_step W N a s' = None) \<and> (\<forall>x \<in> set (workers s'). snd x = Exited)"
    by blast
next
  assume ret: "mainpc s = Returned"
  from pool_returned_results(1) [OF pool_exec_inv [OF assms(2,3,5)] ret]
  show len: "length (collected tr) = nat N" .
  show "collected tr = []" if "N = 0"
    using len that by simp
  show "collected tr = map transform [1..N]" if "W = 1"
    using pool_returned_results(5) [OF pool_exec_inv [OF assms(2,3,5)] ret] that by simp
qed

text \<open>One worker, two jobs: the results arrive in job order.\<close>

theorem pool_terminates_within_capacity_witness:
  "pool_exec 1 2 [Started 1, AllStarted, Submitted 1, Submitted 2, JobsClosed, Processing 1 1,
            Produced 1 2, Processing 1 2, Produced 1 4, Result 2, Result 4, Finished, WorkerDone 1]
           \<lparr>jobs = [], jobsClosed = True, results = [], workers = [(1, Exited)],
            mainpc = Returned\<rparr>
   \<and> collected [Started 1, AllStarted, Submitted 1, Submitted 2, JobsClosed, Processing 1 1,
            Produced 1 2, Processing 1 2, Produced 1 4, Result 2, Result 4, Finished, WorkerDone 1]
       = map transform [1..2]"
proof -
  let ?tr = "[Started 1, AllStarted, Submitted 1, Submitted 2, JobsClosed, Processing 1 1,
            Produced 1 2, Processing 1 2, Produced 1 4, Result 2, Result 4, Finished, WorkerDone 1]"
  let ?s = "\<lparr>jobs = [], jobsClosed = True, results = [], workers = [(1, Exited)],
            mainpc = Returned\<rparr>"
  have ex: "pool_exec 1 2 ?tr ?s" by (rule schedule_run [OF run_1_2])
  have b: "(1::int) \<le> 1" "(1::int) < maxInt" "(2::int) < maxInt" "(2::int) \<le> 200 + 1"
    by (simp_all add: maxInt_def)
  have r: "mainpc ?s = Returned" by simp
  from pool_terminates_within_capacity [OF b ex] r
  have "collected ?tr = map transform [1..2]" by blast
  with ex show ?thesis by (rule conjI)
qed

text \<open>
  With 1 worker and 202 jobs the pool reaches a state where no goroutine has a step and
  main has not returned, and there is no run in which main returns.
\<close>

theorem pool_202_jobs_1_worker_deadlocks:
  "(\<exists>tr s. pool_exec 1 202 tr s \<and> (\<forall>a. pool_step 1 202 a s = None) \<and> mainpc s \<noteq> Returned)
   \<and> \<not> (\<exists>tr s. pool_exec 1 202 tr s \<and> mainpc s = Returned)"
proof
  have b: "(0::int) \<le> 1" "(1::int) < maxInt" "(202::int) < maxInt" "2 * int chanCap + 1 < 202"
    by (simp_all add: maxInt_def chanCap_def)
  from pool_completes [OF b(2,3) pool_start] obtain tr s
    where ex: "pool_exec 1 202 tr s" and bl: "pool_blocked 1 202 s"
    by auto
  from pool_overfull_trace [OF b ex] have nr: "mainpc s \<noteq> Returned" by simp
  from bl have "\<forall>a. pool_step 1 202 a s = None" by (simp add: blocked_no_step)
  with ex nr show "\<exists>tr s. pool_exec 1 202 tr s \<and> (\<forall>a. pool_step 1 202 a s = None)
      \<and> mainpc s \<noteq> Returned"
    by blast
  show "\<not> (\<exists>tr s. pool_exec 1 202 tr s \<and> mainpc s = Returned)"
    using pool_overfull_trace [OF b] by blast
qed

section \<open>The pipeline: results\<close>

lemma upto_prefix:
  assumes "n \<le> max 0 m"
  shows "prefix [1..n] [1..m]"
proof (cases "1 \<le> n")
  case True
  with assms have "n \<le> m" by simp
  with True have "[1..m] = [1..n] @ [n + 1..m]" by (rule upto_split2)
  then show ?thesis by (simp add: prefix_def)
next
  case False
  then show ?thesis by simp
qed

lemma squares_fit:
  assumes "cnt \<le> 3037000499"
  shows "map (\<lambda>n. wrap64 (n * n)) [1..cnt] = map (\<lambda>n. n * n) [1..cnt]"
proof (rule map_cong [OF refl])
  fix n assume "n \<in> set [1..cnt]"
  with assms have "0 \<le> n" "n \<le> 3037000499" by simp_all
  then show "wrap64 (n * n) = n * n" by (rule square_fits)
qed

lemma small_count: "cnt \<le> 3037000499 \<Longrightarrow> cnt < maxInt"
  by (simp add: maxInt_def)

lemma pipeline_can_finish:
  assumes c: "cnt < maxInt" and ex: "pipeline_exec cnt tr s"
  shows "\<exists>tr' s'. pipeline_exec cnt (tr @ tr') s' \<and> reader s' = ReadDone
           \<and> (\<forall>g. pipeline_step cnt g s' = None)"
proof -
  from pipeline_completes [OF c ex] obtain tr' s'
    where ex': "pipeline_exec cnt (tr @ tr') s'" and bl: "pipeline_blocked cnt s'"
    by blast
  from pipeline_progress [OF pipeline_exec_inv [OF c ex'] bl] have "reader s' = ReadDone" by simp
  moreover have "pipeline_step cnt g s' = None" for g
    using bl by (cases g) (simp_all add: pipeline_blocked_def)
  ultimately show ?thesis using ex' by blast
qed

lemma run_pipeline_2:
  "pipeline_schedule 2 [Generator, Squarer, Generator, Generator, Squarer, Squarer, Printer]
     ([], pipeline_init)
   = Some ([Passed 1, PipelineResult 1, Passed 2, NumbersClosed, PipelineResult 4,
            SquaresClosed, PrintReturned],
           \<lparr>gen = GenClosed, sq = SqClosed, reader = ReadDone\<rparr>)"
  by (simp add: generateNumbers_def squareNumbers_def printNumbers_def pipeline_init_def
      wrap64_def)

text \<open>
  C10, for counts whose squares fit the integer type. For \<open>cnt \<le> 3037000499\<close>: at every
  moment of every run of the pipeline the values delivered so far are a prefix of
  \<open>1\<^sup>2, 2\<^sup>2, ..., cnt\<^sup>2\<close>, in that order; a run has at most \<open>2 cnt + 3\<close> steps; once
  the printer has returned the values delivered are exactly that list; and every run can
  be continued until the printer has returned and nothing is left to do.
\<close>

theorem pipeline_squares_in_order:
  assumes "cnt \<le> 3037000499" "pipeline_exec cnt tr s"
  shows "prefix (delivered tr) (map (\<lambda>n. n * n) [1..cnt])
       \<and> length tr \<le> 2 * nat cnt + 3
       \<and> (reader s = ReadDone \<longrightarrow> delivered tr = map (\<lambda>n. n * n) [1..cnt])
       \<and> (\<exists>tr' s'. pipeline_exec cnt (tr @ tr') s' \<and> reader s' = ReadDone
             \<and> (\<forall>g. pipeline_step cnt g s' = None))"
proof (intro conjI impI)
  note c = small_count [OF assms(1)]
  note inv = pipeline_exec_inv [OF c assms(2)]
  from generated_prefix [OF inv] obtain n
    where n: "generated cnt (gen s) = [1..n]" "n \<le> max 0 cnt"
    by blast
  from inv n(1) have "delivered tr @ map (\<lambda>n. wrap64 (n * n)) (pending (sq s))
      = map (\<lambda>n. wrap64 (n * n)) [1..n]"
    by (simp add: pipeline_inv_def)
  then have "prefix (delivered tr) (map (\<lambda>n. wrap64 (n * n)) [1..n])"
    by (metis prefixI)
  also from upto_prefix [OF n(2)]
  have "prefix (map (\<lambda>n. wrap64 (n * n)) [1..n]) (map (\<lambda>n. wrap64 (n * n)) [1..cnt])"
    by (rule map_mono_prefix)
  finally show "prefix (delivered tr) (map (\<lambda>n. n * n) [1..cnt])"
    by (simp only: squares_fit [OF assms(1)])
  from pipeline_exec_length [OF c assms(2)] show "length tr \<le> 2 * nat cnt + 3"
    by simp
  from pipeline_can_finish [OF c assms(2)]
  show "\<exists>tr' s'. pipeline_exec cnt (tr @ tr') s' \<and> reader s' = ReadDone
             \<and> (\<forall>g. pipeline_step cnt g s' = None)" .
  show "delivered tr = map (\<lambda>n. n * n) [1..cnt]" if "reader s = ReadDone"
    using pipeline_done_output(1) [OF inv that] by (simp only: squares_fit [OF assms(1)])
qed

text \<open>A complete run for \<open>cnt = 2\<close>.\<close>

theorem pipeline_squares_in_order_witness:
  "pipeline_exec 2 [Passed 1, PipelineResult 1, Passed 2, NumbersClosed, PipelineResult 4,
            SquaresClosed, PrintReturned] \<lparr>gen = GenClosed, sq = SqClosed, reader = ReadDone\<rparr>
   \<and> delivered [Passed 1, PipelineResult 1, Passed 2, NumbersClosed, PipelineResult 4,
            SquaresClosed, PrintReturned] = map (\<lambda>n. n * n) [1..2]"
proof -
  let ?tr = "[Passed 1, PipelineResult 1, Passed 2, NumbersClosed, PipelineResult 4,
            SquaresClosed, PrintReturned]"
  let ?s = "\<lparr>gen = GenClosed, sq = SqClosed, reader = ReadDone\<rparr>"
  have ex: "pipeline_exec 2 ?tr ?s"
    using run_pipeline_2 pipeline_start by (rule pipeline_schedule_exec)
  have b: "(2::int) \<le> 3037000499" by simp
  have r: "reader ?s = ReadDone" by simp
  from pipeline_squares_in_order [OF b ex] r
  have "delivered ?tr = map (\<lambda>n. n * n) [1..2]" by blast
  with ex show ?thesis by (rule conjI)
qed

text \<open>
  For \<open>cnt = 3037000500\<close> the pipeline has a complete run whose last value is
  \<open>3037000500 * 3037000500\<close> wrapped to 64 bits, a negative number, so the values
  delivered are not the squares.
\<close>

theorem pipeline_square_overflows:
  "\<exists>tr s. pipeline_exec 3037000500 tr s \<and> reader s = ReadDone
      \<and> last (delivered tr) = - 9223372036709301616
      \<and> delivered tr \<noteq> map (\<lambda>n. n * n) [1..3037000500]"
proof -
  have c: "(3037000500::int) < maxInt" by (simp add: maxInt_def)
  from pipeline_can_finish [OF c pipeline_start] obtain tr s
    where ex: "pipeline_exec 3037000500 tr s" and d: "reader s = ReadDone"
    by auto
  from pipeline_done_output(1) [OF pipeline_exec_inv [OF c ex] d]
  have out: "delivered tr = map (\<lambda>n. wrap64 (n * n)) [1..3037000500]" .
  have split: "[1..3037000500] = [1..3037000500 - 1] @ [3037000500 :: int]"
    by (rule upto_rec2) simp
  have l: "last (delivered tr) = - 9223372036709301616"
    unfolding out by (subst split) (simp add: wrap64_def)
  have "last (map (\<lambda>n. n * n) [1..3037000500 :: int]) = 3037000500 * 3037000500"
    by (subst split) simp
  with l have "delivered tr \<noteq> map (\<lambda>n. n * n) [1..3037000500]"
    by auto
  with ex d l show ?thesis by blast
qed

section \<open>The job source\<close>

lemma pool_job_source:
  assumes "N < maxInt" "pool_exec W N tr s"
  shows "(\<exists>n. n \<le> max 0 N
              \<and> filter intakeOp tr
                 = map Submitted [1..n] @ (if jobsClosed s then [JobsClosed] else [])
              \<and> processed tr @ jobs s = [1..n]
              \<and> (jobsClosed s \<longrightarrow> [1..n] = [1..N]))
       \<and> (\<forall>a e s'. pool_step W N a s = Some (e, s') \<longrightarrow>
            (\<forall>j. e = Submitted j \<longrightarrow>
               a = 0 \<and> jobs s' = jobs s @ [j] \<and> jobsClosed s' = jobsClosed s)
            \<and> (e = JobsClosed \<longrightarrow>
               a = 0 \<and> \<not> jobsClosed s \<and> jobsClosed s' \<and> jobs s' = jobs s)
            \<and> (\<not> intakeOp e \<longrightarrow> jobsClosed s' = jobsClosed s \<and> suffix (jobs s') (jobs s)))
       \<and> (\<forall>k e s'. worker k s = Some (e, s') \<longrightarrow>
            \<not> intakeOp e \<and> jobsClosed s' = jobsClosed s \<and> suffix (jobs s') (jobs s))
       \<and> (1 \<le> W \<and> W < maxInt \<and> N \<le> 200 + W \<longrightarrow>
            (\<exists>tr' s'. pool_exec W N (tr @ tr') s' \<and> jobsClosed s' \<and> jobs s' = []
               \<and> filter intakeOp (tr @ tr') = map Submitted [1..N] @ [JobsClosed]
               \<and> processed (tr @ tr') = [1..N]))"
proof (intro conjI allI impI)
  note inv = pool_exec_source [OF assms]
  show "\<exists>n. n \<le> max 0 N
              \<and> filter intakeOp tr
                 = map Submitted [1..n] @ (if jobsClosed s then [JobsClosed] else [])
              \<and> processed tr @ jobs s = [1..n]
              \<and> (jobsClosed s \<longrightarrow> [1..n] = [1..N])"
  proof (cases "mainpc s")
    case (Spawning w)
    with inv have "0 \<le> max 0 N
              \<and> filter intakeOp tr
                 = map Submitted [1..0] @ (if jobsClosed s then [JobsClosed] else [])
              \<and> processed tr @ jobs s = [1..0]
              \<and> (jobsClosed s \<longrightarrow> [1..0] = [1..N])"
      by (simp add: source_inv_def)
    then show ?thesis by (rule exI)
  next
    case (Sending j)
    with inv have "j - 1 \<le> max 0 N
              \<and> filter intakeOp tr
                 = map Submitted [1..j - 1] @ (if jobsClosed s then [JobsClosed] else [])
              \<and> processed tr @ jobs s = [1..j - 1]
              \<and> (jobsClosed s \<longrightarrow> [1..j - 1] = [1..N])"
      by (auto simp: source_inv_def)
    then show ?thesis by (rule exI)
  next
    case (Collecting r)
    have "[1..max 0 N] = [1..N]" by (auto simp: max_def)
    with Collecting inv have "max 0 N \<le> max 0 N
              \<and> filter intakeOp tr
                 = map Submitted [1..max 0 N] @ (if jobsClosed s then [JobsClosed] else [])
              \<and> processed tr @ jobs s = [1..max 0 N]
              \<and> (jobsClosed s \<longrightarrow> [1..max 0 N] = [1..N])"
      by (simp add: source_inv_def)
    then show ?thesis by (rule exI)
  next
    case Returned
    have "[1..max 0 N] = [1..N]" by (auto simp: max_def)
    with Returned inv have "max 0 N \<le> max 0 N
              \<and> filter intakeOp tr
                 = map Submitted [1..max 0 N] @ (if jobsClosed s then [JobsClosed] else [])
              \<and> processed tr @ jobs s = [1..max 0 N]
              \<and> (jobsClosed s \<longrightarrow> [1..max 0 N] = [1..N])"
      by (simp add: source_inv_def)
    then show ?thesis by (rule exI)
  next
    case Panicked
    with inv show ?thesis by (simp add: source_inv_def)
  qed
next
  fix a e s' j assume st: "pool_step W N a s = Some (e, s')" and e: "e = Submitted j"
  from pool_step_intake [OF st] e
  show "a = 0" "jobs s' = jobs s @ [j]" "jobsClosed s' = jobsClosed s"
    by simp_all
next
  fix a e s' assume st: "pool_step W N a s = Some (e, s')" and e: "e = JobsClosed"
  from pool_step_intake [OF st] e
  show "a = 0" "\<not> jobsClosed s" "jobsClosed s'" "jobs s' = jobs s"
    by simp_all
next
  fix a e s' assume st: "pool_step W N a s = Some (e, s')" and e: "\<not> intakeOp e"
  from pool_step_intake [OF st] e
  show "jobsClosed s' = jobsClosed s" "suffix (jobs s') (jobs s)"
    by simp_all
next
  fix k e s' assume "worker k s = Some (e, s')"
  from worker_frame [OF this]
  show "\<not> intakeOp e" "jobsClosed s' = jobsClosed s" "suffix (jobs s') (jobs s)"
    by simp_all
next
  assume b: "1 \<le> W \<and> W < maxInt \<and> N \<le> 200 + W"
  then have b': "1 \<le> W" "W < maxInt" "N \<le> 200 + W" by simp_all
  from pool_can_return [OF b'(1,2) assms(1) b'(3) assms(2)] obtain tr' s'
    where ex': "pool_exec W N (tr @ tr') s'" and ret: "mainpc s' = Returned"
      and empty: "jobs s' = []"
    by blast
  from pool_exec_source [OF assms(1) ex'] ret empty
  have "jobsClosed s'" "filter intakeOp (tr @ tr') = map Submitted [1..N] @ [JobsClosed]"
    "processed (tr @ tr') = [1..N]"
    by (simp_all add: source_inv_def)
  with ex' empty
  show "\<exists>tr' s'. pool_exec W N (tr @ tr') s' \<and> jobsClosed s' \<and> jobs s' = []
               \<and> filter intakeOp (tr @ tr') = map Submitted [1..N] @ [JobsClosed]
               \<and> processed (tr @ tr') = [1..N]"
    by blast
qed

lemma pipeline_job_source:
  assumes "cnt < maxInt" "pipeline_exec cnt tr s"
  shows "(\<exists>n. n \<le> max 0 cnt
              \<and> filter numbersOp tr
                 = map Passed [1..n] @ (if gen s = GenClosed then [NumbersClosed] else [])
              \<and> (\<forall>num. sq s = SqHolding num \<longrightarrow> num = n)
              \<and> (gen s = GenClosed \<longrightarrow> [1..n] = [1..cnt]))
       \<and> (\<forall>g e s'. pipeline_step cnt g s = Some (e, s') \<longrightarrow>
            (\<forall>i. e = Passed i \<longrightarrow>
               g = Generator \<and> sq s = SqRanging \<and> sq s' = SqHolding i \<and> gen s \<noteq> GenClosed)
            \<and> (e = NumbersClosed \<longrightarrow>
               g = Generator \<and> gen s \<noteq> GenClosed \<and> gen s' = GenClosed \<and> sq s' = sq s)
            \<and> (\<not> numbersOp e \<longrightarrow>
               g \<noteq> Generator \<and> gen s' = gen s \<and> (\<forall>i. sq s' \<noteq> SqHolding i)))
       \<and> (\<exists>tr' s'. pipeline_exec cnt (tr @ tr') s' \<and> gen s' = GenClosed
             \<and> filter numbersOp (tr @ tr') = map Passed [1..cnt] @ [NumbersClosed])"
proof (intro conjI)
  note inv = pipeline_exec_inv [OF assms]
  note hand = pipeline_exec_handover [OF assms]
  from generated_prefix [OF inv] obtain n
    where n: "generated cnt (gen s) = [1..n]" "n \<le> max 0 cnt"
      "gen s = GenClosed \<longrightarrow> [1..n] = [1..cnt]"
    by blast
  have held: "num = n" if "sq s = SqHolding num" for num
  proof -
    from hand that have "1 \<le> num" "generated cnt (gen s) = [1..num]"
      by (simp_all add: handover_inv_def)
    with n(1) have "[1..n] = [1..num]" by simp
    then show ?thesis using \<open>1 \<le> num\<close> by (rule upto_from_one_inj [symmetric])
  qed
  from inv n(1) have "filter numbersOp tr
                 = map Passed [1..n] @ (if gen s = GenClosed then [NumbersClosed] else [])"
    by (simp add: pipeline_inv_def)
  with n(2,3) held
  have "n \<le> max 0 cnt
              \<and> filter numbersOp tr
                 = map Passed [1..n] @ (if gen s = GenClosed then [NumbersClosed] else [])
              \<and> (\<forall>num. sq s = SqHolding num \<longrightarrow> num = n)
              \<and> (gen s = GenClosed \<longrightarrow> [1..n] = [1..cnt])"
    by simp
  then show "\<exists>n. n \<le> max 0 cnt
              \<and> filter numbersOp tr
                 = map Passed [1..n] @ (if gen s = GenClosed then [NumbersClosed] else [])
              \<and> (\<forall>num. sq s = SqHolding num \<longrightarrow> num = n)
              \<and> (gen s = GenClosed \<longrightarrow> [1..n] = [1..cnt])"
    by (rule exI)
next
  show "\<forall>g e s'. pipeline_step cnt g s = Some (e, s') \<longrightarrow>
            (\<forall>i. e = Passed i \<longrightarrow>
               g = Generator \<and> sq s = SqRanging \<and> sq s' = SqHolding i \<and> gen s \<noteq> GenClosed)
            \<and> (e = NumbersClosed \<longrightarrow>
               g = Generator \<and> gen s \<noteq> GenClosed \<and> gen s' = GenClosed \<and> sq s' = sq s)
            \<and> (\<not> numbersOp e \<longrightarrow>
               g \<noteq> Generator \<and> gen s' = gen s \<and> (\<forall>i. sq s' \<noteq> SqHolding i))"
    using pipeline_step_numbers by (intro allI impI)
next
  from pipeline_can_finish [OF assms] obtain tr' s'
    where ex': "pipeline_exec cnt (tr @ tr') s'" and d: "reader s' = ReadDone"
      and bl: "\<forall>g. pipeline_step cnt g s' = None"
    by blast
  from bl have "pipeline_blocked cnt s'"
    using spec [OF bl, of Generator] spec [OF bl, of Squarer] spec [OF bl, of Printer]
    by (simp add: pipeline_blocked_def)
  from pipeline_progress [OF pipeline_exec_inv [OF assms(1) ex'] this]
  have "gen s' = GenClosed" by simp
  with pipeline_done_output(2) [OF pipeline_exec_inv [OF assms(1) ex'] d] ex'
  show "\<exists>tr' s'. pipeline_exec cnt (tr @ tr') s' \<and> gen s' = GenClosed
             \<and> filter numbersOp (tr @ tr') = map Passed [1..cnt] @ [NumbersClosed]"
    by blast
qed

text \<open>
  C3, for counts below \<open>maxInt\<close>. In the pool, for any number of workers, at every
  moment of every run: the operations on the intake channel so far are the sends of
  \<open>1..n\<close> in ascending order for some \<open>n \<le> N\<close>, followed by one close if and only if
  the channel is closed; those same jobs \<open>1..n\<close> are exactly the ones the workers have
  received so far followed by the ones now in the channel, in that order; the channel is
  closed only when all of \<open>1..N\<close> have been sent. A step that sends \<open>j\<close> is main's and
  appends \<open>j\<close> to the channel; a step that closes is main's, finds the channel open and
  leaves it closed; every other step, and so every step of a worker, leaves the closed
  flag alone and adds nothing to the channel. When \<open>1 \<le> W < maxInt\<close> and
  \<open>N \<le> 200 + W\<close> every run can be continued until exactly \<open>1..N\<close> have been sent and
  received and the channel is closed and empty. The same holds of \<open>generateNumbers\<close> in
  the pipeline, there without a bound from a capacity: what it has sent is \<open>1..n\<close> in
  order, the number the squarer holds is the last one sent, a send is the generator's
  step and hands the number to the waiting squarer, the close is the generator's and
  happens once and only after \<open>1..cnt\<close>, no other step sends or closes, and every run
  can be continued until it has sent all of \<open>1..cnt\<close> and closed.
\<close>

theorem job_source_protocol:
  "(\<forall>W N tr s. N < maxInt \<and> pool_exec W N tr s \<longrightarrow>
      (\<exists>n. n \<le> max 0 N
              \<and> filter intakeOp tr
                 = map Submitted [1..n] @ (if jobsClosed s then [JobsClosed] else [])
              \<and> processed tr @ jobs s = [1..n]
              \<and> (jobsClosed s \<longrightarrow> [1..n] = [1..N]))
      \<and> (\<forall>a e s'. pool_step W N a s = Some (e, s') \<longrightarrow>
            (\<forall>j. e = Submitted j \<longrightarrow>
               a = 0 \<and> jobs s' = jobs s @ [j] \<and> jobsClosed s' = jobsClosed s)
            \<and> (e = JobsClosed \<longrightarrow>
               a = 0 \<and> \<not> jobsClosed s \<and> jobsClosed s' \<and> jobs s' = jobs s)
            \<and> (\<not> intakeOp e \<longrightarrow> jobsClosed s' = jobsClosed s \<and> suffix (jobs s') (jobs s)))
      \<and> (\<forall>k e s'. worker k s = Some (e, s') \<longrightarrow>
            \<not> intakeOp e \<and> jobsClosed s' = jobsClosed s \<and> suffix (jobs s') (jobs s))
      \<and> (1 \<le> W \<and> W < maxInt \<and> N \<le> 200 + W \<longrightarrow>
            (\<exists>tr' s'. pool_exec W N (tr @ tr') s' \<and> jobsClosed s' \<and> jobs s' = []
               \<and> filter intakeOp (tr @ tr') = map Submitted [1..N] @ [JobsClosed]
               \<and> processed (tr @ tr') = [1..N])))
   \<and> (\<forall>cnt tr s. cnt < maxInt \<and> pipeline_exec cnt tr s \<longrightarrow>
      (\<exists>n. n \<le> max 0 cnt
              \<and> filter numbersOp tr
                 = map Passed [1..n] @ (if gen s = GenClosed then [NumbersClosed] else [])
              \<and> (\<forall>num. sq s = SqHolding num \<longrightarrow> num = n)
              \<and> (gen s = GenClosed \<longrightarrow> [1..n] = [1..cnt]))
      \<and> (\<forall>g e s'. pipeline_step cnt g s = Some (e, s') \<longrightarrow>
            (\<forall>i. e = Passed i \<longrightarrow>
               g = Generator \<and> sq s = SqRanging \<and> sq s' = SqHolding i \<and> gen s \<noteq> GenClosed)
            \<and> (e = NumbersClosed \<longrightarrow>
               g = Generator \<and> gen s \<noteq> GenClosed \<and> gen s' = GenClosed \<and> sq s' = sq s)
            \<and> (\<not> numbersOp e \<longrightarrow>
               g \<noteq> Generator \<and> gen s' = gen s \<and> (\<forall>i. sq s' \<noteq> SqHolding i)))
      \<and> (\<exists>tr' s'. pipeline_exec cnt (tr @ tr') s' \<and> gen s' = GenClosed
             \<and> filter numbersOp (tr @ tr') = map Passed [1..cnt] @ [NumbersClosed]))"
proof (rule conjI)
  show "\<forall>W N tr s. N < maxInt \<and> pool_exec W N tr s \<longrightarrow>
      (\<exists>n. n \<le> max 0 N
              \<and> filter intakeOp tr
                 = map Submitted [1..n] @ (if jobsClosed s then [JobsClosed] else [])
              \<and> processed tr @ jobs s = [1..n]
              \<and> (jobsClosed s \<longrightarrow> [1..n] = [1..N]))
      \<and> (\<forall>a e s'. pool_step W N a s = Some (e, s') \<longrightarrow>
            (\<forall>j. e = Submitted j \<longrightarrow>
               a = 0 \<and> jobs s' = jobs s @ [j] \<and> jobsClosed s' = jobsClosed s)
            \<and> (e = JobsClosed \<longrightarrow>
               a = 0 \<and> \<not> jobsClosed s \<and> jobsClosed s' \<and> jobs s' = jobs s)
            \<and> (\<not> intakeOp e \<longrightarrow> jobsClosed s' = jobsClosed s \<and> suffix (jobs s') (jobs s)))
      \<and> (\<forall>k e s'. worker k s = Some (e, s') \<longrightarrow>
            \<not> intakeOp e \<and> jobsClosed s' = jobsClosed s \<and> suffix (jobs s') (jobs s))
      \<and> (1 \<le> W \<and> W < maxInt \<and> N \<le> 200 + W \<longrightarrow>
            (\<exists>tr' s'. pool_exec W N (tr @ tr') s' \<and> jobsClosed s' \<and> jobs s' = []
               \<and> filter intakeOp (tr @ tr') = map Submitted [1..N] @ [JobsClosed]
               \<and> processed (tr @ tr') = [1..N]))"
  proof (intro allI impI)
    fix W N tr s assume "N < maxInt \<and> pool_exec W N tr s"
    then have "N < maxInt" "pool_exec W N tr s" by simp_all
    then show "(\<exists>n. n \<le> max 0 N
              \<and> filter intakeOp tr
                 = map Submitted [1..n] @ (if jobsClosed s then [JobsClosed] else [])
              \<and> processed tr @ jobs s = [1..n]
              \<and> (jobsClosed s \<longrightarrow> [1..n] = [1..N]))
      \<and> (\<forall>a e s'. pool_step W N a s = Some (e, s') \<longrightarrow>
            (\<forall>j. e = Submitted j \<longrightarrow>
               a = 0 \<and> jobs s' = jobs s @ [j] \<and> jobsClosed s' = jobsClosed s)
            \<and> (e = JobsClosed \<longrightarrow>
               a = 0 \<and> \<not> jobsClosed s \<and> jobsClosed s' \<and> jobs s' = jobs s)
            \<and> (\<not> intakeOp e \<longrightarrow> jobsClosed s' = jobsClosed s \<and> suffix (jobs s') (jobs s)))
      \<and> (\<forall>k e s'. worker k s = Some (e, s') \<longrightarrow>
            \<not> intakeOp e \<and> jobsClosed s' = jobsClosed s \<and> suffix (jobs s') (jobs s))
      \<and> (1 \<le> W \<and> W < maxInt \<and> N \<le> 200 + W \<longrightarrow>
            (\<exists>tr' s'. pool_exec W N (tr @ tr') s' \<and> jobsClosed s' \<and> jobs s' = []
               \<and> filter intakeOp (tr @ tr') = map Submitted [1..N] @ [JobsClosed]
               \<and> processed (tr @ tr') = [1..N]))"
      by (rule pool_job_source)
  qed
  show "\<forall>cnt tr s. cnt < maxInt \<and> pipeline_exec cnt tr s \<longrightarrow>
      (\<exists>n. n \<le> max 0 cnt
              \<and> filter numbersOp tr
                 = map Passed [1..n] @ (if gen s = GenClosed then [NumbersClosed] else [])
              \<and> (\<forall>num. sq s = SqHolding num \<longrightarrow> num = n)
              \<and> (gen s = GenClosed \<longrightarrow> [1..n] = [1..cnt]))
      \<and> (\<forall>g e s'. pipeline_step cnt g s = Some (e, s') \<longrightarrow>
            (\<forall>i. e = Passed i \<longrightarrow>
               g = Generator \<and> sq s = SqRanging \<and> sq s' = SqHolding i \<and> gen s \<noteq> GenClosed)
            \<and> (e = NumbersClosed \<longrightarrow>
               g = Generator \<and> gen s \<noteq> GenClosed \<and> gen s' = GenClosed \<and> sq s' = sq s)
            \<and> (\<not> numbersOp e \<longrightarrow>
               g \<noteq> Generator \<and> gen s' = gen s \<and> (\<forall>i. sq s' \<noteq> SqHolding i)))
      \<and> (\<exists>tr' s'. pipeline_exec cnt (tr @ tr') s' \<and> gen s' = GenClosed
             \<and> filter numbersOp (tr @ tr') = map Passed [1..cnt] @ [NumbersClosed])"
  proof (intro allI impI)
    fix cnt tr s assume "cnt < maxInt \<and> pipeline_exec cnt tr s"
    then have "cnt < maxInt" "pipeline_exec cnt tr s" by simp_all
    then show "(\<exists>n. n \<le> max 0 cnt
              \<and> filter numbersOp tr
                 = map Passed [1..n] @ (if gen s = GenClosed then [NumbersClosed] else [])
              \<and> (\<forall>num. sq s = SqHolding num \<longrightarrow> num = n)
              \<and> (gen s = GenClosed \<longrightarrow> [1..n] = [1..cnt]))
      \<and> (\<forall>g e s'. pipeline_step cnt g s = Some (e, s') \<longrightarrow>
            (\<forall>i. e = Passed i \<longrightarrow>
               g = Generator \<and> sq s = SqRanging \<and> sq s' = SqHolding i \<and> gen s \<noteq> GenClosed)
            \<and> (e = NumbersClosed \<longrightarrow>
               g = Generator \<and> gen s \<noteq> GenClosed \<and> gen s' = GenClosed \<and> sq s' = sq s)
            \<and> (\<not> numbersOp e \<longrightarrow>
               g \<noteq> Generator \<and> gen s' = gen s \<and> (\<forall>i. sq s' \<noteq> SqHolding i)))
      \<and> (\<exists>tr' s'. pipeline_exec cnt (tr @ tr') s' \<and> gen s' = GenClosed
             \<and> filter numbersOp (tr @ tr') = map Passed [1..cnt] @ [NumbersClosed])"
      by (rule pipeline_job_source)
  qed
qed

text \<open>A complete run of the pool and one of the pipeline, with their intake operations.\<close>

theorem job_source_protocol_witness:
  "pool_exec 1 2 [Started 1, AllStarted, Submitted 1, Submitted 2, JobsClosed, Processing 1 1,
            Produced 1 2, Processing 1 2, Produced 1 4, Result 2, Result 4, Finished, WorkerDone 1]
           \<lparr>jobs = [], jobsClosed = True, results = [], workers = [(1, Exited)],
            mainpc = Returned\<rparr>
   \<and> (\<exists>n. filter intakeOp [Started 1, AllStarted, Submitted 1, Submitted 2, JobsClosed, Processing 1 1,
            Produced 1 2, Processing 1 2, Produced 1 4, Result 2, Result 4, Finished, WorkerDone 1] = map Submitted [1..n] @ [JobsClosed]
          \<and> processed [Started 1, AllStarted, Submitted 1, Submitted 2, JobsClosed, Processing 1 1,
            Produced 1 2, Processing 1 2, Produced 1 4, Result 2, Result 4, Finished, WorkerDone 1] @ jobs \<lparr>jobs = [], jobsClosed = True, results = [], workers = [(1, Exited)],
            mainpc = Returned\<rparr> = [1..n]
          \<and> [1..n] = [1..2])
   \<and> pipeline_exec 2 [Passed 1, PipelineResult 1, Passed 2, NumbersClosed, PipelineResult 4,
            SquaresClosed, PrintReturned] \<lparr>gen = GenClosed, sq = SqClosed, reader = ReadDone\<rparr>
   \<and> (\<exists>n. filter numbersOp [Passed 1, PipelineResult 1, Passed 2, NumbersClosed, PipelineResult 4,
            SquaresClosed, PrintReturned] = map Passed [1..n] @ [NumbersClosed]
          \<and> [1..n] = [1..2])"
proof -
  let ?tr = "[Started 1, AllStarted, Submitted 1, Submitted 2, JobsClosed, Processing 1 1,
            Produced 1 2, Processing 1 2, Produced 1 4, Result 2, Result 4, Finished, WorkerDone 1]"
  let ?s = "\<lparr>jobs = [], jobsClosed = True, results = [], workers = [(1, Exited)],
            mainpc = Returned\<rparr>"
  let ?ptr = "[Passed 1, PipelineResult 1, Passed 2, NumbersClosed, PipelineResult 4,
            SquaresClosed, PrintReturned]"
  let ?ps = "\<lparr>gen = GenClosed, sq = SqClosed, reader = ReadDone\<rparr>"
  have ex: "pool_exec 1 2 ?tr ?s" by (rule schedule_run [OF run_1_2])
  have pex: "pipeline_exec 2 ?ptr ?ps"
    using run_pipeline_2 pipeline_start by (rule pipeline_schedule_exec)
  have b: "(2::int) < maxInt" by (simp add: maxInt_def)
  have cl: "jobsClosed ?s" by simp
  from job_source_protocol b ex
  have "\<exists>n. n \<le> max 0 2
              \<and> filter intakeOp ?tr
                 = map Submitted [1..n] @ (if jobsClosed ?s then [JobsClosed] else [])
              \<and> processed ?tr @ jobs ?s = [1..n]
              \<and> (jobsClosed ?s \<longrightarrow> [1..n] = [1..2])"
    by blast
  then obtain n where n: "filter intakeOp ?tr
                 = map Submitted [1..n] @ (if jobsClosed ?s then [JobsClosed] else [])"
    "processed ?tr @ jobs ?s = [1..n]"
    "jobsClosed ?s \<longrightarrow> [1..n] = [1..2]"
    by (elim exE conjE)
  from n(1) cl have "filter intakeOp ?tr = map Submitted [1..n] @ [JobsClosed]"
    by (simp only: if_True)
  moreover note n(2)
  moreover from n(3) cl have "[1..n] = [1..2]" by (rule mp)
  ultimately have "filter intakeOp ?tr = map Submitted [1..n] @ [JobsClosed]
      \<and> processed ?tr @ jobs ?s = [1..n] \<and> [1..n] = [1..2]"
    by (intro conjI)
  then have one: "\<exists>n. filter intakeOp ?tr = map Submitted [1..n] @ [JobsClosed]
      \<and> processed ?tr @ jobs ?s = [1..n] \<and> [1..n] = [1..2]"
    by (rule exI)
  from job_source_protocol b pex
  have "\<exists>n. n \<le> max 0 2
              \<and> filter numbersOp ?ptr
                 = map Passed [1..n] @ (if gen ?ps = GenClosed then [NumbersClosed] else [])
              \<and> (\<forall>num. sq ?ps = SqHolding num \<longrightarrow> num = n)
              \<and> (gen ?ps = GenClosed \<longrightarrow> [1..n] = [1..2])"
    by blast
  then obtain m where m: "filter numbersOp ?ptr
                 = map Passed [1..m] @ (if gen ?ps = GenClosed then [NumbersClosed] else [])"
    "gen ?ps = GenClosed \<longrightarrow> [1..m] = [1..2]"
    by (elim exE conjE)
  from m(1) have "filter numbersOp ?ptr = map Passed [1..m] @ [NumbersClosed]"
    by (simp only: pipeline.simps simp_thms if_True)
  moreover from m(2) have "[1..m] = [1..2]" by simp
  ultimately have "filter numbersOp ?ptr = map Passed [1..m] @ [NumbersClosed]
      \<and> [1..m] = [1..2]"
    by (intro conjI)
  then have two: "\<exists>n. filter numbersOp ?ptr = map Passed [1..n] @ [NumbersClosed]
      \<and> [1..n] = [1..2]"
    by (rule exI)
  from ex one pex two show ?thesis by (intro conjI)
qed

lemma pool_overfull_source:
  assumes W: "0 \<le> W" "W < maxInt" and N: "N < maxInt" "2 * int chanCap + W < N"
    and ex: "pool_exec W N tr s"
  shows "N \<notin> set (jobs s) \<and> N \<notin> set (processed tr)"
proof -
  from pool_exec_source [OF N(1) ex]
  have src: "processed tr @ jobs s = submitted_by N (mainpc s)"
    by (simp add: source_inv_def)
  from pool_overfull [OF W N ex]
  consider w where "mainpc s = Spawning w" | j where "mainpc s = Sending j" "j \<le> N"
    by blast
  then have "N \<notin> set (submitted_by N (mainpc s))"
    by cases auto
  moreover have "set (processed tr) \<union> set (jobs s) = set (submitted_by N (mainpc s))"
    using arg_cong [OF src, of set] by simp
  ultimately show ?thesis by blast
qed

text \<open>
  With 2 workers and 203 jobs the job source never sends job 203 (it is never in the
  channel and never reaches a worker) and never closes the intake channel.
\<close>

theorem pool_203_jobs_2_workers_never_closes:
  "\<not> (\<exists>tr s. pool_exec 2 203 tr s
         \<and> (JobsClosed \<in> set tr \<or> Submitted 203 \<in> set tr \<or> jobsClosed s
             \<or> 203 \<in> set (jobs s) \<or> 203 \<in> set (processed tr)))"
proof
  assume "\<exists>tr s. pool_exec 2 203 tr s
         \<and> (JobsClosed \<in> set tr \<or> Submitted 203 \<in> set tr \<or> jobsClosed s
             \<or> 203 \<in> set (jobs s) \<or> 203 \<in> set (processed tr))"
  then obtain tr s where ex: "pool_exec 2 203 tr s"
    and bad: "JobsClosed \<in> set tr \<or> Submitted 203 \<in> set tr \<or> jobsClosed s
             \<or> 203 \<in> set (jobs s) \<or> 203 \<in> set (processed tr)"
    by blast
  have "(0::int) \<le> 2" "(2::int) < maxInt" "(203::int) < maxInt" "2 * int chanCap + 2 < 203"
    by (simp_all add: maxInt_def chanCap_def)
  from pool_overfull_trace [OF this ex] pool_overfull_source [OF this ex] bad
  show False by simp
qed

section \<open>Beyond the capacity: two runs that halt differently\<close>







section \<open>Runs compared\<close>














end
